theory Spec2Isabelle
  imports Complex_Main
begin

section \<open>Operator-side control loop of the RC car front end (App.vue)\<close>

text \<open>
  The component samples the keyboard and the first gamepad once per animation frame,
  fuses both into one command, sends the command over a WebSocket at a bounded rate and
  reconnects the WebSocket three seconds after every close.  The video element, the
  camera error fallback and the fullscreen toggle of the same file take no part in this
  and are left out.

  JavaScript numbers are IEEE 754 binary64 values.  They are modelled as \<^typ>\<open>real\<close>:
  every finite double is a real number, and comparison, negation, \<open>Math.max\<close> and
  \<open>Math.min\<close> of doubles are those of the reals.  Addition is not: the sum of two doubles
  is the double nearest to the exact sum, so the additions of lines 101 and 102 go
  through \<open>double_add\<close> below.  The keyboard sums of lines 94 to 97 only produce \<open>-1\<close>, \<open>0\<close>
  and \<open>1\<close> and are exact.  The subtraction of line 113 is taken exactly as well: it is
  exact for \<open>lastSentTime = 0\<close> and for \<open>lastSentTime \<le> currentTime \<le> 2 * lastSentTime\<close>, and
  beyond that range the difference exceeds \<open>lastSentTime\<close>, which is then a time stamp
  above 50, so the comparison with 50 comes out the same.  The values \<open>NaN\<close> and
  \<open>\<plusminus>Infinity\<close> are outside the model.
\<close>

subsection \<open>Addition of doubles\<close>

text \<open>
  Rounding of a real to the nearest integer, a tie going to the even one.
\<close>

definition rne :: "real \<Rightarrow> int" where
  "rne x =
     (let f = \<lfloor>x\<rfloor>;
          d = x - of_int f
      in if d < 1 / 2 then f
         else if 1 / 2 < d then f + 1
         else if even f then f else f + 1)"

text \<open>
  The binary exponent \<open>e\<close> of a double near \<open>x\<close>: \<open>2\<^sup>e \<le> |x| < 2\<^sup>e\<^sup>+\<^sup>1\<close>, kept within the
  exponent range \<open>-1022 .. 1023\<close> of binary64 (below \<open>2\<^sup>-\<^sup>1\<^sup>0\<^sup>2\<^sup>2\<close> the doubles are the
  subnormal ones, all with exponent \<open>-1022\<close>).  The first argument of the two searches
  bounds the number of steps.
\<close>

fun exp_up :: "nat \<Rightarrow> real \<Rightarrow> int" where
  "exp_up 0 x = 0"
| "exp_up (Suc n) x = (if 2 \<le> x then exp_up n (x / 2) + 1 else 0)"

fun exp_down :: "nat \<Rightarrow> real \<Rightarrow> int" where
  "exp_down 0 x = 0"
| "exp_down (Suc n) x = (if x < 1 then exp_down n (x * 2) - 1 else 0)"

definition binary64_exponent :: "real \<Rightarrow> int" where
  "binary64_exponent x = (if 1 \<le> \<bar>x\<bar> then exp_up 1023 \<bar>x\<bar> else exp_down 1022 \<bar>x\<bar>)"

definition pow2 :: "int \<Rightarrow> real" where
  "pow2 e = (if 0 \<le> e then 2 ^ nat e else 1 / 2 ^ nat (- e))"

text \<open>
  The double nearest to a real, a tie going to the double with the even significand
  (\<open>roundTiesToEven\<close>, the rounding of every arithmetic operation of JavaScript): doubles
  with exponent \<open>e\<close> are the multiples of \<open>2\<^sup>e\<^sup>-\<^sup>5\<^sup>2\<close>, the significand having 53 bits.
  A result of magnitude \<open>2\<^sup>1\<^sup>0\<^sup>2\<^sup>4\<close> or more stands for an overflow, which the sum of a finite
  double and \<open>-1\<close>, \<open>0\<close> or \<open>1\<close> never is.
\<close>

definition round_double :: "real \<Rightarrow> real" where
  "round_double x =
     (if x = 0 then 0
      else let ulp = pow2 (binary64_exponent x - 52)
           in of_int (rne (x / ulp)) * ulp)"

text \<open>\<open>x + y\<close> on doubles.\<close>

definition double_add :: "real \<Rightarrow> real \<Rightarrow> real" where
  "double_add x y = round_double (x + y)"

subsection \<open>Input sources\<close>

text \<open>\<^verbatim>\<open>const keyState = { w: false, a: false, s: false, d: false };\<close>\<close>

record keys =
  key_w :: bool
  key_a :: bool
  key_s :: bool
  key_d :: bool

definition keyState_init :: keys where
  "keyState_init = \<lparr>key_w = False, key_a = False, key_s = False, key_d = False\<rparr>"

text \<open>
  The part of a \<open>Gamepad\<close> object that \<open>gameLoop\<close> reads: \<open>axes[0]\<close>, \<open>axes[1]\<close>,
  \<open>buttons[0].pressed\<close> and \<open>buttons[1].pressed\<close>.  The entry \<open>navigator.getGamepads()[0]\<close>
  is a gamepad or \<open>null\<close>, hence a \<^typ>\<open>'a option\<close> at the use site.
\<close>

record gamepad =
  axes0 :: real
  axes1 :: real
  button0 :: bool
  button1 :: bool

text \<open>The four local variables \<open>lx\<close>, \<open>ly\<close>, \<open>cross\<close>, \<open>circle\<close> of \<open>gameLoop\<close>.\<close>

record command =
  lx :: real
  ly :: real
  cross :: bool
  circle :: bool

subsection \<open>Fusing keyboard and gamepad (gameLoop, lines 88-109)\<close>

text \<open>
  \<^verbatim>\<open>if (keyState.w) ly -= 1.0;  if (keyState.s) ly += 1.0;\<close>
  \<^verbatim>\<open>if (keyState.a) lx -= 1.0;  if (keyState.d) lx += 1.0;\<close>
  starting from \<open>lx = 0\<close>, \<open>ly = 0\<close>.
\<close>

definition keyboard_lx :: "keys \<Rightarrow> real" where
  "keyboard_lx k =
     (let x0 = 0;
          x1 = (if key_a k then x0 - 1 else x0);
          x2 = (if key_d k then x1 + 1 else x1)
      in x2)"

definition keyboard_ly :: "keys \<Rightarrow> real" where
  "keyboard_ly k =
     (let y0 = 0;
          y1 = (if key_w k then y0 - 1 else y0);
          y2 = (if key_s k then y1 + 1 else y1)
      in y2)"

text \<open>\<^verbatim>\<open>Math.max(-1.0, Math.min(1.0, v))\<close>\<close>

definition clamp1 :: "real \<Rightarrow> real" where
  "clamp1 v = max (- 1) (min 1 v)"

text \<open>
  The gamepad branch (lines 100-108): \<^verbatim>\<open>lx += ps4Controller.axes[0]\<close> and
  \<^verbatim>\<open>ly += ps4Controller.axes[1]\<close> add the stick to the keyboard value in double
  arithmetic, then each axis is clamped and the two buttons are read.  Without a gamepad
  the keyboard value is used as it is and both buttons stay \<open>false\<close>.
\<close>

definition fuse :: "keys \<Rightarrow> gamepad option \<Rightarrow> command" where
  "fuse k pad =
     (case pad of
        None \<Rightarrow> \<lparr>lx = keyboard_lx k, ly = keyboard_ly k, cross = False, circle = False\<rparr>
      | Some g \<Rightarrow>
          \<lparr>lx = clamp1 (double_add (keyboard_lx k) (axes0 g)),
           ly = clamp1 (double_add (keyboard_ly k) (axes1 g)),
           cross = button0 g,
           circle = button1 g\<rparr>)"

subsection \<open>The wire record (gameLoop, lines 115-124)\<close>

text \<open>
  \<open>Number.prototype.toFixed(3)\<close> as ECMA-262 defines it for a finite number below
  \<open>10\<^sup>2\<^sup>1\<close> in magnitude: a minus sign for a negative number, then the integer \<open>n\<close>
  nearest to \<open>|x| * 1000\<close> (the larger one on a tie) written in decimal, padded with
  zeros to at least four digits, with a point before the last three.  At \<open>10\<^sup>2\<^sup>1\<close> and
  above the builtin switches to exponent notation; fused axes never get there.
\<close>

definition digit_char :: "nat \<Rightarrow> char" where
  "digit_char d = ''0123456789'' ! d"

fun digits :: "nat \<Rightarrow> string" where
  "digits n =
     (if n < 10 then [digit_char n] else digits (n div 10) @ [digit_char (n mod 10)])"

declare digits.simps [simp del]

definition toFixed3 :: "real \<Rightarrow> string" where
  "toFixed3 x =
     (let sgn = (if x < 0 then ''-'' else []);
          ax = (if x < 0 then - x else x);
          n = nat \<lfloor>ax * 1000 + 1 / 2\<rfloor>;
          m = digits n;
          m = (if length m \<le> 3 then replicate (3 + 1 - length m) (CHR ''0'') @ m else m);
          k = length m
      in sgn @ take (k - 3) m @ ''.'' @ drop (k - 3) m)"

text \<open>The object literal \<open>controlData\<close>; its \<open>type\<close> field is called \<open>type_tag\<close> here.\<close>

record controlData =
  type_tag :: string
  left_x :: string
  left_y :: string
  cross_b :: bool
  circle_b :: bool

definition make_controlData :: "command \<Rightarrow> controlData" where
  "make_controlData c =
     \<lparr>type_tag = ''control'',
      left_x = toFixed3 (lx c),
      left_y = toFixed3 (ly c),
      cross_b = cross c,
      circle_b = circle c\<rparr>"

text \<open>
  \<open>JSON.stringify\<close> on that object: the own properties in insertion order, strings in
  double quotes with the double quote and the backslash escaped (control characters,
  which would be escaped too, do not occur in the strings of this record), booleans as
  \<open>true\<close> and \<open>false\<close>.
\<close>

definition JSON_escape :: "char \<Rightarrow> string" where
  "JSON_escape c =
     (if c = CHR 0x22 then [CHR 0x5C, CHR 0x22]
      else if c = CHR 0x5C then [CHR 0x5C, CHR 0x5C] else [c])"

definition JSON_quote :: "string \<Rightarrow> string" where
  "JSON_quote v = [CHR 0x22] @ concat (map JSON_escape v) @ [CHR 0x22]"

definition JSON_bool :: "bool \<Rightarrow> string" where
  "JSON_bool b = (if b then ''true'' else ''false'')"

definition JSON_stringify :: "controlData \<Rightarrow> string" where
  \<open>JSON_stringify d =
     ''{"type":'' @ JSON_quote (type_tag d) @
     '',"left_x":'' @ JSON_quote (left_x d) @
     '',"left_y":'' @ JSON_quote (left_y d) @
     '',"cross_b":'' @ JSON_bool (cross_b d) @
     '',"circle_b":'' @ JSON_bool (circle_b d) @ ''}''\<close>

subsection \<open>Component state and the browser objects it holds\<close>

datatype ready_state = CONNECTING | OPEN | CLOSING | CLOSED

text \<open>
  A \<open>WebSocket\<close> object: its \<open>readyState\<close>, and whether the \<open>onclose\<close> handler that
  \<open>connectWebSocket\<close> installed is still attached (\<open>onUnmounted\<close> sets it to \<open>null\<close>).
  The handlers \<open>onopen\<close> and \<open>onerror\<close> are never removed.
\<close>

record websocket =
  readyState :: ready_state
  onclose :: bool

datatype console_entry =
    Log_connected
  | Warn_closed
  | Error_websocket
  | Warn_not_connected "ready_state option"
  | Uncaught_TypeError

datatype phase = Created | Mounted | Unmounted

text \<open>
  The script's variables (\<open>keyState\<close>, \<open>lastSentTime\<close>, \<open>animationFrameId\<close>, \<open>ws\<close>,
  \<open>reconnectTimer\<close>), one \<open>logCounter\<close> per call of \<open>startGamepadPolling\<close> (each call
  creates its own \<open>gameLoop\<close> closure), and the browser side: whether the three window
  listeners are attached, the sockets created so far (a socket is referred to by its
  position), the pending timeouts with their due times, the pending animation frame
  requests with the closure each one calls, the messages sent (newest first, with socket
  and time), the console, and the time of the last event.  Request and timer identifiers
  are positive, as in browsers.
\<close>

record state =
  keyState :: keys
  lastSentTime :: real
  animationFrameId :: "nat option"
  ws :: "nat option"
  reconnectTimer :: "nat option"
  logCounter :: "nat list"
  phase :: phase
  listening :: bool
  sockets :: "websocket list"
  timers :: "(nat \<times> real) list"
  next_timer :: nat
  frames :: "(nat \<times> nat) list"
  next_frame :: nat
  sent :: "(nat \<times> real \<times> string) list"
  console :: "console_entry list"
  clock :: real

definition init :: state where
  "init =
     \<lparr>keyState = keyState_init, lastSentTime = 0, animationFrameId = None, ws = None,
      reconnectTimer = None, logCounter = [], phase = Created, listening = False,
      sockets = [], timers = [], next_timer = 1, frames = [], next_frame = 1,
      sent = [], console = [], clock = 0\<rparr>"

definition SEND_INTERVAL :: real where
  "SEND_INTERVAL = 50"

definition RECONNECT_DELAY :: real where
  "RECONNECT_DELAY = 3000"

subsection \<open>Keyboard handlers (lines 20-25)\<close>

text \<open>\<open>String.prototype.toLowerCase\<close> on the ASCII letters.\<close>

definition lower_char :: "char \<Rightarrow> char" where
  "lower_char c =
     (case map_of (zip ''ABCDEFGHIJKLMNOPQRSTUVWXYZ'' ''abcdefghijklmnopqrstuvwxyz'') c of
        None \<Rightarrow> c | Some d \<Rightarrow> d)"

definition toLowerCase :: "string \<Rightarrow> string" where
  "toLowerCase k = map lower_char k"

text \<open>
  \<^verbatim>\<open>if (keyState.hasOwnProperty(k)) keyState[k] = b;\<close> where the own properties are
  \<open>w\<close>, \<open>a\<close>, \<open>s\<close>, \<open>d\<close>.
\<close>

definition set_key :: "string \<Rightarrow> bool \<Rightarrow> keys \<Rightarrow> keys" where
  "set_key k b ks =
     (if k = ''w'' then ks\<lparr>key_w := b\<rparr>
      else if k = ''a'' then ks\<lparr>key_a := b\<rparr>
      else if k = ''s'' then ks\<lparr>key_s := b\<rparr>
      else if k = ''d'' then ks\<lparr>key_d := b\<rparr>
      else ks)"

definition onKeyDown :: "string \<Rightarrow> keys \<Rightarrow> keys" where
  "onKeyDown k ks = set_key (toLowerCase k) True ks"

definition onKeyUp :: "string \<Rightarrow> keys \<Rightarrow> keys" where
  "onKeyUp k ks = set_key (toLowerCase k) False ks"

subsection \<open>Connection handling (lines 61-78)\<close>

definition set_readyState :: "nat \<Rightarrow> ready_state \<Rightarrow> state \<Rightarrow> state" where
  "set_readyState h r s =
     s\<lparr>sockets := (sockets s)[h := (sockets s ! h)\<lparr>readyState := r\<rparr>]\<rparr>"

text \<open>
  \<open>WebSocket.close()\<close>: a connecting or open socket starts closing; on a closing or
  closed socket the call does nothing.
\<close>

definition WebSocket_close :: "websocket \<Rightarrow> websocket" where
  "WebSocket_close sock =
     (if readyState sock = CONNECTING \<or> readyState sock = OPEN
      then sock\<lparr>readyState := CLOSING\<rparr> else sock)"

definition ws_close :: "nat \<Rightarrow> state \<Rightarrow> state" where
  "ws_close h s = s\<lparr>sockets := (sockets s)[h := WebSocket_close (sockets s ! h)]\<rparr>"

text \<open>\<open>new WebSocket(...)\<close> with the three handlers attached, assigned to \<open>ws\<close>.\<close>

definition connectWebSocket :: "state \<Rightarrow> state" where
  "connectWebSocket s =
     s\<lparr>sockets := sockets s @ [\<lparr>readyState = CONNECTING, onclose = True\<rparr>],
       ws := Some (length (sockets s))\<rparr>"

definition ws_onopen :: "state \<Rightarrow> state" where
  "ws_onopen s = s\<lparr>console := Log_connected # console s\<rparr>"

text \<open>
  \<open>reconnectTimer = setTimeout(connectWebSocket, 3000)\<close>: a new timer, due 3000 ms
  after the current time.
\<close>

definition ws_onclose :: "state \<Rightarrow> state" where
  "ws_onclose s =
     s\<lparr>console := Warn_closed # console s,
       ws := None,
       timers := timers s @ [(next_timer s, clock s + RECONNECT_DELAY)],
       reconnectTimer := Some (next_timer s),
       next_timer := Suc (next_timer s)\<rparr>"

text \<open>
  The error handler calls \<open>close\<close> on the variable \<open>ws\<close>, not on the socket that
  reported the error; with \<open>ws\<close> being \<open>null\<close> the call throws inside the handler.
\<close>

definition ws_onerror :: "state \<Rightarrow> state" where
  "ws_onerror s =
     (let s1 = s\<lparr>console := Error_websocket # console s\<rparr>
      in case ws s1 of
           None \<Rightarrow> s1\<lparr>console := Uncaught_TypeError # console s1\<rparr>
         | Some h \<Rightarrow> ws_close h s1)"

subsection \<open>The polling loop (lines 80-144)\<close>

text \<open>\<open>animationFrameId = requestAnimationFrame(gameLoop)\<close> for the closure \<open>l\<close>.\<close>

definition requestAnimationFrame :: "nat \<Rightarrow> state \<Rightarrow> state" where
  "requestAnimationFrame l s =
     s\<lparr>frames := frames s @ [(next_frame s, l)],
       animationFrameId := Some (next_frame s),
       next_frame := Suc (next_frame s)\<rparr>"

definition startGamepadPolling :: "state \<Rightarrow> state" where
  "startGamepadPolling s =
     requestAnimationFrame (length (logCounter s)) (s\<lparr>logCounter := logCounter s @ [0]\<rparr>)"

text \<open>\<open>ws && ws.readyState === WebSocket.OPEN\<close>\<close>

definition ws_is_open :: "state \<Rightarrow> bool" where
  "ws_is_open s =
     (case ws s of
        None \<Rightarrow> False
      | Some h \<Rightarrow> h < length (sockets s) \<and> readyState (sockets s ! h) = OPEN)"

text \<open>\<open>ws ? ws.readyState : 'NULL'\<close>\<close>

definition ws_state :: "state \<Rightarrow> ready_state option" where
  "ws_state s = (case ws s of None \<Rightarrow> None | Some h \<Rightarrow> Some (readyState (sockets s ! h)))"

text \<open>
  The branch taken with an open socket (lines 112-126): \<open>now\<close> is \<open>performance.now()\<close>.
\<close>

definition transmit :: "command \<Rightarrow> real \<Rightarrow> state \<Rightarrow> state" where
  "transmit c now s =
     (if now - lastSentTime s > SEND_INTERVAL
      then (case ws s of
              None \<Rightarrow> s
            | Some h \<Rightarrow>
                s\<lparr>sent := (h, now, JSON_stringify (make_controlData c)) # sent s,
                  lastSentTime := now\<rparr>)
      else s)"

text \<open>The branch taken otherwise (lines 128-135), for the closure \<open>l\<close>.\<close>

definition report_unconnected :: "nat \<Rightarrow> state \<Rightarrow> state" where
  "report_unconnected l s =
     (let n = logCounter s ! l + 1;
          s1 = s\<lparr>logCounter := (logCounter s)[l := n]\<rparr>
      in if n mod 60 = 0
         then (if \<not> ws_is_open s1
               then s1\<lparr>console := Warn_not_connected (ws_state s1) # console s1\<rparr>
               else s1)
         else s1)"

definition gameLoop :: "nat \<Rightarrow> gamepad option \<Rightarrow> real \<Rightarrow> state \<Rightarrow> state" where
  "gameLoop l pad now s =
     (let c = fuse (keyState s) pad;
          s1 = (if ws_is_open s then transmit c now s else report_unconnected l s)
      in requestAnimationFrame l s1)"

subsection \<open>Mounting and unmounting (lines 27-55)\<close>

definition onMounted :: "state \<Rightarrow> state" where
  "onMounted s =
     startGamepadPolling (connectWebSocket (s\<lparr>listening := True, phase := Mounted\<rparr>))"

definition cancelAnimationFrame :: "nat \<Rightarrow> state \<Rightarrow> state" where
  "cancelAnimationFrame f s = s\<lparr>frames := filter (\<lambda>p. fst p \<noteq> f) (frames s)\<rparr>"

definition clearTimeout :: "nat \<Rightarrow> state \<Rightarrow> state" where
  "clearTimeout i s = s\<lparr>timers := filter (\<lambda>p. fst p \<noteq> i) (timers s)\<rparr>"

definition set_onclose_null :: "nat \<Rightarrow> state \<Rightarrow> state" where
  "set_onclose_null h s =
     s\<lparr>sockets := (sockets s)[h := (sockets s ! h)\<lparr>onclose := False\<rparr>]\<rparr>"

text \<open>
  The four steps of the unmount hook, in the order of the source.  The tests
  \<open>if (animationFrameId)\<close>, \<open>if (reconnectTimer)\<close> and \<open>if (ws)\<close> are truthiness tests:
  \<open>null\<close> and the number 0 fail them.  The hook itself is the only place that changes
  \<open>phase\<close> to \<open>Unmounted\<close>.
\<close>

definition stop_polling :: "state \<Rightarrow> state" where
  "stop_polling s =
     (case animationFrameId s of
        None \<Rightarrow> s
      | Some f \<Rightarrow> if f \<noteq> 0 then cancelAnimationFrame f s else s)"

definition removeEventListeners :: "state \<Rightarrow> state" where
  "removeEventListeners s = s\<lparr>listening := False\<rparr>"

definition cancel_reconnect :: "state \<Rightarrow> state" where
  "cancel_reconnect s =
     (case reconnectTimer s of
        None \<Rightarrow> s
      | Some i \<Rightarrow> if i \<noteq> 0 then clearTimeout i s else s)"

definition close_connection :: "state \<Rightarrow> state" where
  "close_connection s =
     (case ws s of
        None \<Rightarrow> s
      | Some h \<Rightarrow> ws_close h (set_onclose_null h s))"

definition onUnmounted :: "state \<Rightarrow> state" where
  "onUnmounted s =
     (close_connection (cancel_reconnect (removeEventListeners (stop_polling s))))
       \<lparr>phase := Unmounted\<rparr>"

subsection \<open>The event queue\<close>

text \<open>
  Everything runs on one thread: the browser takes one event at a time and runs its
  handler to completion.  An event carries the time at which it is delivered; times do
  not go back, and \<open>performance.now()\<close> inside a handler is the time of its event.
  \<^item> \<open>Mount\<close> and \<open>Unmount\<close> are the component's lifecycle hooks, in that order, once each.
  \<^item> A key or \<open>gamepadconnected\<close> event reaches the component while its listeners are
    attached.
  \<^item> \<open>AnimationFrame f pad\<close> runs the pending request \<open>f\<close>, which is thereby no longer
    pending; \<open>pad\<close> is what \<open>navigator.getGamepads()[0]\<close> returns during that call.
  \<^item> \<open>SocketOpen\<close> is delivered to a connecting socket, \<open>SocketClose\<close> to a socket that
    is not yet closed (a WebSocket fires \<open>close\<close> once), \<open>SocketError\<close> to any socket at
    any time.
  \<^item> \<open>Timeout i\<close> runs the pending timer \<open>i\<close>, not before it is due.
  An event that cannot occur in the current state yields \<open>None\<close>.
\<close>

datatype event =
    Mount
  | Unmount
  | KeyDown string
  | KeyUp string
  | GamepadConnected
  | AnimationFrame nat "gamepad option"
  | SocketOpen nat
  | SocketError nat
  | SocketClose nat
  | Timeout nat

fun handle :: "event \<Rightarrow> state \<Rightarrow> state option" where
  "handle Mount s = (if phase s = Created then Some (onMounted s) else None)"
| "handle Unmount s = (if phase s = Mounted then Some (onUnmounted s) else None)"
| "handle (KeyDown k) s =
     Some (if listening s then s\<lparr>keyState := onKeyDown k (keyState s)\<rparr> else s)"
| "handle (KeyUp k) s =
     Some (if listening s then s\<lparr>keyState := onKeyUp k (keyState s)\<rparr> else s)"
| "handle GamepadConnected s = Some (if listening s then startGamepadPolling s else s)"
| "handle (AnimationFrame f pad) s =
     (case map_of (frames s) f of
        None \<Rightarrow> None
      | Some l \<Rightarrow> Some (gameLoop l pad (clock s) (cancelAnimationFrame f s)))"
| "handle (SocketOpen h) s =
     (if h < length (sockets s) \<and> readyState (sockets s ! h) = CONNECTING
      then Some (ws_onopen (set_readyState h OPEN s)) else None)"
| "handle (SocketError h) s = (if h < length (sockets s) then Some (ws_onerror s) else None)"
| "handle (SocketClose h) s =
     (if h < length (sockets s) \<and> readyState (sockets s ! h) \<noteq> CLOSED
      then Some (if onclose (sockets s ! h)
                 then ws_onclose (set_readyState h CLOSED s)
                 else set_readyState h CLOSED s)
      else None)"
| "handle (Timeout i) s =
     (case map_of (timers s) i of
        None \<Rightarrow> None
      | Some due \<Rightarrow>
          if due \<le> clock s then Some (connectWebSocket (clearTimeout i s)) else None)"

definition step :: "state \<Rightarrow> real \<times> event \<Rightarrow> state option" where
  "step s te =
     (case te of (t, e) \<Rightarrow> if t < clock s then None else handle e (s\<lparr>clock := t\<rparr>))"

fun run :: "state \<Rightarrow> (real \<times> event) list \<Rightarrow> state option" where
  "run s [] = Some s"
| "run s (te # tes) = (case step s te of None \<Rightarrow> None | Some s' \<Rightarrow> run s' tes)"

section \<open>Notions used to state the properties\<close>

subsection \<open>Fusion as the specification words it\<close>

text \<open>
  The contributions of the sources to one axis, as a list: \<open>-1\<close> and \<open>+1\<close> for the two
  keys of the axis when held, and the stick value when a gamepad is present.  The fused
  axis is their sum, clamped once; the sum is the one of the machine, taken from zero
  in double arithmetic over the list.
\<close>

definition contributions_x :: "keys \<Rightarrow> gamepad option \<Rightarrow> real list" where
  "contributions_x k pad =
     (if key_a k then [- 1] else []) @ (if key_d k then [1] else []) @
     (case pad of None \<Rightarrow> [] | Some g \<Rightarrow> [axes0 g])"

definition contributions_y :: "keys \<Rightarrow> gamepad option \<Rightarrow> real list" where
  "contributions_y k pad =
     (if key_w k then [- 1] else []) @ (if key_s k then [1] else []) @
     (case pad of None \<Rightarrow> [] | Some g \<Rightarrow> [axes1 g])"

definition double_sum :: "real list \<Rightarrow> real" where
  "double_sum xs = foldl double_add 0 xs"

definition fuse_spec :: "keys \<Rightarrow> gamepad option \<Rightarrow> real \<times> real" where
  "fuse_spec k pad =
     (clamp1 (double_sum (contributions_x k pad)), clamp1 (double_sum (contributions_y k pad)))"

subsection \<open>Connections\<close>

text \<open>
  The invariant of the connection handling: a socket other than the one in \<open>ws\<close> is
  closed; \<open>ws\<close> refers to a socket that exists; at most one timer is pending, it is the
  one in \<open>reconnectTimer\<close>, and while it is pending \<open>ws\<close> is \<open>null\<close>; a connecting or open
  socket has its close handler and exists only while the component is mounted; after
  unmounting, a socket with a close handler is closed.
\<close>

definition conn_inv :: "state \<Rightarrow> bool" where
  "conn_inv s \<longleftrightarrow>
     (\<forall>h<length (sockets s). ws s \<noteq> Some h \<longrightarrow> readyState (sockets s ! h) = CLOSED) \<and>
     (\<forall>h. ws s = Some h \<longrightarrow> h < length (sockets s)) \<and>
     (timers s = [] \<or>
        (\<exists>i due. timers s = [(i, due)] \<and> reconnectTimer s = Some i \<and> 0 < i \<and>
           ws s = None \<and> phase s = Mounted)) \<and>
     0 < next_timer s \<and>
     (phase s = Created \<longrightarrow> sockets s = []) \<and>
     (\<forall>h<length (sockets s).
        readyState (sockets s ! h) = CONNECTING \<or> readyState (sockets s ! h) = OPEN \<longrightarrow>
        onclose (sockets s ! h) \<and> phase s = Mounted) \<and>
     (phase s = Unmounted \<longrightarrow>
        (\<forall>h<length (sockets s).
           readyState (sockets s ! h) = CLOSED \<or> \<not> onclose (sockets s ! h)))"

text \<open>The sockets that are not closed: connecting, open or closing.\<close>

definition live_sockets :: "state \<Rightarrow> nat list" where
  "live_sockets s =
     filter (\<lambda>h. readyState (sockets s ! h) \<noteq> CLOSED) [0..<length (sockets s)]"

subsection \<open>Sends\<close>

text \<open>
  The times of the messages sent, newest first, and what it means for them to be more
  than \<open>SEND_INTERVAL\<close> apart.  The invariant of the transmitter: \<open>lastSentTime\<close> is the
  time of the newest message (0 before the first one) and not in the future; the send
  times, followed by 0, are spaced; a pending timer is due at least the reconnect delay
  after the last send; while a socket other than the first one is connecting, the last
  send is at least the reconnect delay ago; nothing is sent before the first socket has
  opened.
\<close>

definition send_times :: "state \<Rightarrow> real list" where
  "send_times s = map (\<lambda>m. fst (snd m)) (sent s)"

fun spaced :: "real list \<Rightarrow> bool" where
  "spaced (a # b # r) = (a - b > SEND_INTERVAL \<and> spaced (b # r))"
| "spaced _ = True"

definition send_inv :: "state \<Rightarrow> bool" where
  "send_inv s \<longleftrightarrow>
     lastSentTime s \<le> clock s \<and>
     hd (send_times s @ [0]) = lastSentTime s \<and>
     spaced (send_times s @ [0]) \<and>
     (\<forall>p \<in> set (timers s). lastSentTime s + RECONNECT_DELAY \<le> snd p) \<and>
     (\<forall>h. ws s = Some h \<longrightarrow> 0 < h \<longrightarrow> h < length (sockets s) \<longrightarrow>
          readyState (sockets s ! h) = CONNECTING \<longrightarrow>
          lastSentTime s + RECONNECT_DELAY \<le> clock s) \<and>
     (sockets s = [] \<or> readyState (sockets s ! 0) = CONNECTING \<longrightarrow> sent s = [])"

definition reach_inv :: "state \<Rightarrow> bool" where
  "reach_inv s \<longleftrightarrow> conn_inv s \<and> send_inv s"

subsection \<open>Ticks\<close>

text \<open>
  A sequence of ticks of one closure, each with its gamepad sample and its time, with no
  other event in between.
\<close>

fun ticks :: "nat \<Rightarrow> (gamepad option \<times> real) list \<Rightarrow> state \<Rightarrow> state" where
  "ticks l [] s = s"
| "ticks l (p # ps) s = ticks l ps (gameLoop l (fst p) (snd p) s)"

subsection \<open>Fixed-point decimal text\<close>

text \<open>
  Reading a decimal string back: the value of a digit, and of a digit string.  The
  predicate \<open>fixed3 x str\<close> says that \<open>str\<close> renders \<open>x\<close> with three fractional digits: a
  minus sign exactly when \<open>x\<close> is negative, at least one digit, a point, exactly three
  digits, and the digits read as a number give \<open>|x| * 1000\<close> rounded to the nearest
  integer, halves up.
\<close>

definition is_digit :: "char \<Rightarrow> bool" where
  "is_digit c \<longleftrightarrow> c \<in> set ''0123456789''"

definition digit_value :: "char \<Rightarrow> nat" where
  "digit_value c = length (takeWhile (\<lambda>d. d \<noteq> c) ''0123456789'')"

definition nat_of_digits :: "string \<Rightarrow> nat" where
  "nat_of_digits ds = foldl (\<lambda>a c. 10 * a + digit_value c) 0 ds"

definition fixed3 :: "real \<Rightarrow> string \<Rightarrow> bool" where
  "fixed3 x str \<longleftrightarrow>
     (let sgn = (if x < 0 then ''-'' else []);
          body = drop (length sgn) str;
          n = length body;
          ds = take (n - 4) body @ drop (n - 3) body
      in take (length sgn) str = sgn \<and> 5 \<le> n \<and> body ! (n - 4) = CHR ''.'' \<and>
         list_all is_digit ds \<and> int (nat_of_digits ds) = \<lfloor>\<bar>x\<bar> * 1000 + 1 / 2\<rfloor>)"

text \<open>
  The state of the polling loop when \<open>startGamepadPolling\<close> has run once only: while
  mounted exactly one request is pending, the one made last, which \<open>animationFrameId\<close>
  holds; before mounting and after unmounting none is.
\<close>

definition one_loop :: "state \<Rightarrow> bool" where
  "one_loop s \<longleftrightarrow>
     0 < next_frame s \<and>
     (case phase s of
        Created \<Rightarrow> frames s = [] \<and> logCounter s = []
      | Mounted \<Rightarrow>
          frames s = [(next_frame s - 1, 0)] \<and> animationFrameId s = Some (next_frame s - 1) \<and>
          1 < next_frame s \<and> length (logCounter s) = 1
      | Unmounted \<Rightarrow> frames s = [])"

section \<open>What each operation leaves unchanged\<close>

lemma set_readyState_keeps [simp]:
  "keyState (set_readyState h r s) = keyState s"
  "lastSentTime (set_readyState h r s) = lastSentTime s"
  "animationFrameId (set_readyState h r s) = animationFrameId s"
  "ws (set_readyState h r s) = ws s"
  "reconnectTimer (set_readyState h r s) = reconnectTimer s"
  "logCounter (set_readyState h r s) = logCounter s"
  "phase (set_readyState h r s) = phase s"
  "listening (set_readyState h r s) = listening s"
  "timers (set_readyState h r s) = timers s"
  "next_timer (set_readyState h r s) = next_timer s"
  "frames (set_readyState h r s) = frames s"
  "next_frame (set_readyState h r s) = next_frame s"
  "sent (set_readyState h r s) = sent s"
  "console (set_readyState h r s) = console s"
  "clock (set_readyState h r s) = clock s"
  by (simp_all add: set_readyState_def)

lemma set_onclose_null_keeps [simp]:
  "keyState (set_onclose_null h s) = keyState s"
  "lastSentTime (set_onclose_null h s) = lastSentTime s"
  "animationFrameId (set_onclose_null h s) = animationFrameId s"
  "ws (set_onclose_null h s) = ws s"
  "reconnectTimer (set_onclose_null h s) = reconnectTimer s"
  "logCounter (set_onclose_null h s) = logCounter s"
  "phase (set_onclose_null h s) = phase s"
  "listening (set_onclose_null h s) = listening s"
  "timers (set_onclose_null h s) = timers s"
  "next_timer (set_onclose_null h s) = next_timer s"
  "frames (set_onclose_null h s) = frames s"
  "next_frame (set_onclose_null h s) = next_frame s"
  "sent (set_onclose_null h s) = sent s"
  "console (set_onclose_null h s) = console s"
  "clock (set_onclose_null h s) = clock s"
  by (simp_all add: set_onclose_null_def)

lemma ws_close_keeps [simp]:
  "keyState (ws_close h s) = keyState s"
  "lastSentTime (ws_close h s) = lastSentTime s"
  "animationFrameId (ws_close h s) = animationFrameId s"
  "ws (ws_close h s) = ws s"
  "reconnectTimer (ws_close h s) = reconnectTimer s"
  "logCounter (ws_close h s) = logCounter s"
  "phase (ws_close h s) = phase s"
  "listening (ws_close h s) = listening s"
  "timers (ws_close h s) = timers s"
  "next_timer (ws_close h s) = next_timer s"
  "frames (ws_close h s) = frames s"
  "next_frame (ws_close h s) = next_frame s"
  "sent (ws_close h s) = sent s"
  "console (ws_close h s) = console s"
  "clock (ws_close h s) = clock s"
  by (simp_all add: ws_close_def)

lemma connectWebSocket_keeps [simp]:
  "keyState (connectWebSocket s) = keyState s"
  "lastSentTime (connectWebSocket s) = lastSentTime s"
  "animationFrameId (connectWebSocket s) = animationFrameId s"
  "reconnectTimer (connectWebSocket s) = reconnectTimer s"
  "logCounter (connectWebSocket s) = logCounter s"
  "phase (connectWebSocket s) = phase s"
  "listening (connectWebSocket s) = listening s"
  "timers (connectWebSocket s) = timers s"
  "next_timer (connectWebSocket s) = next_timer s"
  "frames (connectWebSocket s) = frames s"
  "next_frame (connectWebSocket s) = next_frame s"
  "sent (connectWebSocket s) = sent s"
  "console (connectWebSocket s) = console s"
  "clock (connectWebSocket s) = clock s"
  by (simp_all add: connectWebSocket_def)

lemma ws_onopen_keeps [simp]:
  "keyState (ws_onopen s) = keyState s"
  "lastSentTime (ws_onopen s) = lastSentTime s"
  "animationFrameId (ws_onopen s) = animationFrameId s"
  "ws (ws_onopen s) = ws s"
  "reconnectTimer (ws_onopen s) = reconnectTimer s"
  "logCounter (ws_onopen s) = logCounter s"
  "phase (ws_onopen s) = phase s"
  "listening (ws_onopen s) = listening s"
  "sockets (ws_onopen s) = sockets s"
  "timers (ws_onopen s) = timers s"
  "next_timer (ws_onopen s) = next_timer s"
  "frames (ws_onopen s) = frames s"
  "next_frame (ws_onopen s) = next_frame s"
  "sent (ws_onopen s) = sent s"
  "clock (ws_onopen s) = clock s"
  by (simp_all add: ws_onopen_def)

lemma ws_onclose_keeps [simp]:
  "keyState (ws_onclose s) = keyState s"
  "lastSentTime (ws_onclose s) = lastSentTime s"
  "animationFrameId (ws_onclose s) = animationFrameId s"
  "logCounter (ws_onclose s) = logCounter s"
  "phase (ws_onclose s) = phase s"
  "listening (ws_onclose s) = listening s"
  "sockets (ws_onclose s) = sockets s"
  "frames (ws_onclose s) = frames s"
  "next_frame (ws_onclose s) = next_frame s"
  "sent (ws_onclose s) = sent s"
  "clock (ws_onclose s) = clock s"
  by (simp_all add: ws_onclose_def)

lemma ws_onerror_keeps [simp]:
  "keyState (ws_onerror s) = keyState s"
  "lastSentTime (ws_onerror s) = lastSentTime s"
  "animationFrameId (ws_onerror s) = animationFrameId s"
  "ws (ws_onerror s) = ws s"
  "reconnectTimer (ws_onerror s) = reconnectTimer s"
  "logCounter (ws_onerror s) = logCounter s"
  "phase (ws_onerror s) = phase s"
  "listening (ws_onerror s) = listening s"
  "timers (ws_onerror s) = timers s"
  "next_timer (ws_onerror s) = next_timer s"
  "frames (ws_onerror s) = frames s"
  "next_frame (ws_onerror s) = next_frame s"
  "sent (ws_onerror s) = sent s"
  "clock (ws_onerror s) = clock s"
  by (simp_all add: ws_onerror_def Let_def split: option.split)

lemma requestAnimationFrame_keeps [simp]:
  "keyState (requestAnimationFrame l s) = keyState s"
  "lastSentTime (requestAnimationFrame l s) = lastSentTime s"
  "ws (requestAnimationFrame l s) = ws s"
  "reconnectTimer (requestAnimationFrame l s) = reconnectTimer s"
  "logCounter (requestAnimationFrame l s) = logCounter s"
  "phase (requestAnimationFrame l s) = phase s"
  "listening (requestAnimationFrame l s) = listening s"
  "sockets (requestAnimationFrame l s) = sockets s"
  "timers (requestAnimationFrame l s) = timers s"
  "next_timer (requestAnimationFrame l s) = next_timer s"
  "sent (requestAnimationFrame l s) = sent s"
  "console (requestAnimationFrame l s) = console s"
  "clock (requestAnimationFrame l s) = clock s"
  by (simp_all add: requestAnimationFrame_def)

lemma startGamepadPolling_keeps [simp]:
  "keyState (startGamepadPolling s) = keyState s"
  "lastSentTime (startGamepadPolling s) = lastSentTime s"
  "ws (startGamepadPolling s) = ws s"
  "reconnectTimer (startGamepadPolling s) = reconnectTimer s"
  "phase (startGamepadPolling s) = phase s"
  "listening (startGamepadPolling s) = listening s"
  "sockets (startGamepadPolling s) = sockets s"
  "timers (startGamepadPolling s) = timers s"
  "next_timer (startGamepadPolling s) = next_timer s"
  "sent (startGamepadPolling s) = sent s"
  "console (startGamepadPolling s) = console s"
  "clock (startGamepadPolling s) = clock s"
  by (simp_all add: startGamepadPolling_def)

lemma transmit_keeps [simp]:
  "keyState (transmit c now s) = keyState s"
  "animationFrameId (transmit c now s) = animationFrameId s"
  "ws (transmit c now s) = ws s"
  "reconnectTimer (transmit c now s) = reconnectTimer s"
  "logCounter (transmit c now s) = logCounter s"
  "phase (transmit c now s) = phase s"
  "listening (transmit c now s) = listening s"
  "sockets (transmit c now s) = sockets s"
  "timers (transmit c now s) = timers s"
  "next_timer (transmit c now s) = next_timer s"
  "frames (transmit c now s) = frames s"
  "next_frame (transmit c now s) = next_frame s"
  "console (transmit c now s) = console s"
  "clock (transmit c now s) = clock s"
  by (simp_all add: transmit_def split: option.split)

lemma report_unconnected_keeps [simp]:
  "keyState (report_unconnected l s) = keyState s"
  "lastSentTime (report_unconnected l s) = lastSentTime s"
  "animationFrameId (report_unconnected l s) = animationFrameId s"
  "ws (report_unconnected l s) = ws s"
  "reconnectTimer (report_unconnected l s) = reconnectTimer s"
  "phase (report_unconnected l s) = phase s"
  "listening (report_unconnected l s) = listening s"
  "sockets (report_unconnected l s) = sockets s"
  "timers (report_unconnected l s) = timers s"
  "next_timer (report_unconnected l s) = next_timer s"
  "frames (report_unconnected l s) = frames s"
  "next_frame (report_unconnected l s) = next_frame s"
  "sent (report_unconnected l s) = sent s"
  "clock (report_unconnected l s) = clock s"
  by (simp_all add: report_unconnected_def Let_def)

lemma gameLoop_keeps [simp]:
  "keyState (gameLoop l pad now s) = keyState s"
  "ws (gameLoop l pad now s) = ws s"
  "reconnectTimer (gameLoop l pad now s) = reconnectTimer s"
  "phase (gameLoop l pad now s) = phase s"
  "listening (gameLoop l pad now s) = listening s"
  "sockets (gameLoop l pad now s) = sockets s"
  "timers (gameLoop l pad now s) = timers s"
  "next_timer (gameLoop l pad now s) = next_timer s"
  "clock (gameLoop l pad now s) = clock s"
  by (simp_all add: gameLoop_def Let_def)

lemma cancelAnimationFrame_keeps [simp]:
  "keyState (cancelAnimationFrame f s) = keyState s"
  "lastSentTime (cancelAnimationFrame f s) = lastSentTime s"
  "animationFrameId (cancelAnimationFrame f s) = animationFrameId s"
  "ws (cancelAnimationFrame f s) = ws s"
  "reconnectTimer (cancelAnimationFrame f s) = reconnectTimer s"
  "logCounter (cancelAnimationFrame f s) = logCounter s"
  "phase (cancelAnimationFrame f s) = phase s"
  "listening (cancelAnimationFrame f s) = listening s"
  "sockets (cancelAnimationFrame f s) = sockets s"
  "timers (cancelAnimationFrame f s) = timers s"
  "next_timer (cancelAnimationFrame f s) = next_timer s"
  "next_frame (cancelAnimationFrame f s) = next_frame s"
  "sent (cancelAnimationFrame f s) = sent s"
  "console (cancelAnimationFrame f s) = console s"
  "clock (cancelAnimationFrame f s) = clock s"
  by (simp_all add: cancelAnimationFrame_def)

lemma clearTimeout_keeps [simp]:
  "keyState (clearTimeout i s) = keyState s"
  "lastSentTime (clearTimeout i s) = lastSentTime s"
  "animationFrameId (clearTimeout i s) = animationFrameId s"
  "ws (clearTimeout i s) = ws s"
  "reconnectTimer (clearTimeout i s) = reconnectTimer s"
  "logCounter (clearTimeout i s) = logCounter s"
  "phase (clearTimeout i s) = phase s"
  "listening (clearTimeout i s) = listening s"
  "sockets (clearTimeout i s) = sockets s"
  "next_timer (clearTimeout i s) = next_timer s"
  "frames (clearTimeout i s) = frames s"
  "next_frame (clearTimeout i s) = next_frame s"
  "sent (clearTimeout i s) = sent s"
  "console (clearTimeout i s) = console s"
  "clock (clearTimeout i s) = clock s"
  by (simp_all add: clearTimeout_def)

lemma onMounted_keeps [simp]:
  "keyState (onMounted s) = keyState s"
  "lastSentTime (onMounted s) = lastSentTime s"
  "reconnectTimer (onMounted s) = reconnectTimer s"
  "timers (onMounted s) = timers s"
  "next_timer (onMounted s) = next_timer s"
  "sent (onMounted s) = sent s"
  "console (onMounted s) = console s"
  "clock (onMounted s) = clock s"
  by (simp_all add: onMounted_def)

lemma stop_polling_keeps [simp]:
  "keyState (stop_polling s) = keyState s"
  "lastSentTime (stop_polling s) = lastSentTime s"
  "animationFrameId (stop_polling s) = animationFrameId s"
  "ws (stop_polling s) = ws s"
  "reconnectTimer (stop_polling s) = reconnectTimer s"
  "logCounter (stop_polling s) = logCounter s"
  "phase (stop_polling s) = phase s"
  "listening (stop_polling s) = listening s"
  "sockets (stop_polling s) = sockets s"
  "timers (stop_polling s) = timers s"
  "next_timer (stop_polling s) = next_timer s"
  "next_frame (stop_polling s) = next_frame s"
  "sent (stop_polling s) = sent s"
  "console (stop_polling s) = console s"
  "clock (stop_polling s) = clock s"
  by (simp_all add: stop_polling_def split: option.split)

lemma removeEventListeners_keeps [simp]:
  "keyState (removeEventListeners s) = keyState s"
  "lastSentTime (removeEventListeners s) = lastSentTime s"
  "animationFrameId (removeEventListeners s) = animationFrameId s"
  "ws (removeEventListeners s) = ws s"
  "reconnectTimer (removeEventListeners s) = reconnectTimer s"
  "logCounter (removeEventListeners s) = logCounter s"
  "phase (removeEventListeners s) = phase s"
  "sockets (removeEventListeners s) = sockets s"
  "timers (removeEventListeners s) = timers s"
  "next_timer (removeEventListeners s) = next_timer s"
  "frames (removeEventListeners s) = frames s"
  "next_frame (removeEventListeners s) = next_frame s"
  "sent (removeEventListeners s) = sent s"
  "console (removeEventListeners s) = console s"
  "clock (removeEventListeners s) = clock s"
  by (simp_all add: removeEventListeners_def)

lemma cancel_reconnect_keeps [simp]:
  "keyState (cancel_reconnect s) = keyState s"
  "lastSentTime (cancel_reconnect s) = lastSentTime s"
  "animationFrameId (cancel_reconnect s) = animationFrameId s"
  "ws (cancel_reconnect s) = ws s"
  "reconnectTimer (cancel_reconnect s) = reconnectTimer s"
  "logCounter (cancel_reconnect s) = logCounter s"
  "phase (cancel_reconnect s) = phase s"
  "listening (cancel_reconnect s) = listening s"
  "sockets (cancel_reconnect s) = sockets s"
  "next_timer (cancel_reconnect s) = next_timer s"
  "frames (cancel_reconnect s) = frames s"
  "next_frame (cancel_reconnect s) = next_frame s"
  "sent (cancel_reconnect s) = sent s"
  "console (cancel_reconnect s) = console s"
  "clock (cancel_reconnect s) = clock s"
  by (simp_all add: cancel_reconnect_def split: option.split)

lemma close_connection_keeps [simp]:
  "keyState (close_connection s) = keyState s"
  "lastSentTime (close_connection s) = lastSentTime s"
  "animationFrameId (close_connection s) = animationFrameId s"
  "ws (close_connection s) = ws s"
  "reconnectTimer (close_connection s) = reconnectTimer s"
  "logCounter (close_connection s) = logCounter s"
  "phase (close_connection s) = phase s"
  "listening (close_connection s) = listening s"
  "timers (close_connection s) = timers s"
  "next_timer (close_connection s) = next_timer s"
  "frames (close_connection s) = frames s"
  "next_frame (close_connection s) = next_frame s"
  "sent (close_connection s) = sent s"
  "console (close_connection s) = console s"
  "clock (close_connection s) = clock s"
  by (simp_all add: close_connection_def split: option.split)

lemma onUnmounted_keeps [simp]:
  "keyState (onUnmounted s) = keyState s"
  "lastSentTime (onUnmounted s) = lastSentTime s"
  "animationFrameId (onUnmounted s) = animationFrameId s"
  "ws (onUnmounted s) = ws s"
  "reconnectTimer (onUnmounted s) = reconnectTimer s"
  "logCounter (onUnmounted s) = logCounter s"
  "next_timer (onUnmounted s) = next_timer s"
  "next_frame (onUnmounted s) = next_frame s"
  "sent (onUnmounted s) = sent s"
  "console (onUnmounted s) = console s"
  "clock (onUnmounted s) = clock s"
  by (simp_all add: onUnmounted_def)

lemma conn_inv_init: "conn_inv init"
  by (simp add: conn_inv_def init_def)

lemma conn_inv_cong:
  assumes "ws s' = ws s" "sockets s' = sockets s" "timers s' = timers s"
    "reconnectTimer s' = reconnectTimer s" "next_timer s' = next_timer s" "phase s' = phase s"
  shows "conn_inv s' = conn_inv s"
  by (simp add: conn_inv_def assms)

lemma sockets_set_readyState [simp]:
  "sockets (set_readyState h r s) = (sockets s)[h := (sockets s ! h)\<lparr>readyState := r\<rparr>]"
  by (simp add: set_readyState_def)

lemma sockets_set_onclose_null [simp]:
  "sockets (set_onclose_null h s) = (sockets s)[h := (sockets s ! h)\<lparr>onclose := False\<rparr>]"
  by (simp add: set_onclose_null_def)

lemma sockets_ws_close [simp]:
  "sockets (ws_close h s) = (sockets s)[h := WebSocket_close (sockets s ! h)]"
  by (simp add: ws_close_def)

lemma connectWebSocket_changes [simp]:
  "sockets (connectWebSocket s) = sockets s @ [\<lparr>readyState = CONNECTING, onclose = True\<rparr>]"
  "ws (connectWebSocket s) = Some (length (sockets s))"
  by (simp_all add: connectWebSocket_def)

lemma ws_onclose_changes [simp]:
  "ws (ws_onclose s) = None"
  "timers (ws_onclose s) = timers s @ [(next_timer s, clock s + RECONNECT_DELAY)]"
  "reconnectTimer (ws_onclose s) = Some (next_timer s)"
  "next_timer (ws_onclose s) = Suc (next_timer s)"
  "console (ws_onclose s) = Warn_closed # console s"
  by (simp_all add: ws_onclose_def)

lemma sockets_ws_onerror:
  "sockets (ws_onerror s) =
     (case ws s of None \<Rightarrow> sockets s
      | Some h \<Rightarrow> (sockets s)[h := WebSocket_close (sockets s ! h)])"
  by (simp add: ws_onerror_def Let_def split: option.split)

lemma timers_clearTimeout [simp]:
  "timers (clearTimeout i s) = filter (\<lambda>p. fst p \<noteq> i) (timers s)"
  by (simp add: clearTimeout_def)

lemma frames_cancelAnimationFrame [simp]:
  "frames (cancelAnimationFrame f s) = filter (\<lambda>p. fst p \<noteq> f) (frames s)"
  by (simp add: cancelAnimationFrame_def)

lemma onMounted_changes [simp]:
  "sockets (onMounted s) = sockets s @ [\<lparr>readyState = CONNECTING, onclose = True\<rparr>]"
  "ws (onMounted s) = Some (length (sockets s))"
  "phase (onMounted s) = Mounted"
  "listening (onMounted s) = True"
  by (simp_all add: onMounted_def)

lemma timers_cancel_reconnect:
  "timers (cancel_reconnect s) =
     (case reconnectTimer s of
        None \<Rightarrow> timers s
      | Some i \<Rightarrow> if i \<noteq> 0 then filter (\<lambda>p. fst p \<noteq> i) (timers s) else timers s)"
  by (simp add: cancel_reconnect_def split: option.split)

lemma sockets_close_connection:
  "sockets (close_connection s) =
     (case ws s of
        None \<Rightarrow> sockets s
      | Some h \<Rightarrow> (sockets s)[h := WebSocket_close ((sockets s ! h)\<lparr>onclose := False\<rparr>)])"
  by (cases "ws s"; cases "the (ws s) < length (sockets s)")
     (simp_all add: close_connection_def list_update_beyond)

lemma onUnmounted_changes:
  "phase (onUnmounted s) = Unmounted"
  "listening (onUnmounted s) = False"
  "timers (onUnmounted s) = timers (cancel_reconnect s)"
  "sockets (onUnmounted s) = sockets (close_connection s)"
  "frames (onUnmounted s) = frames (stop_polling s)"
  by (simp_all add: onUnmounted_def removeEventListeners_def cancel_reconnect_def
      close_connection_def stop_polling_def split: option.split)

lemma conn_invI:
  assumes "\<And>h. h < length (sockets s) \<Longrightarrow> ws s \<noteq> Some h \<Longrightarrow> readyState (sockets s ! h) = CLOSED"
    and "\<And>h. ws s = Some h \<Longrightarrow> h < length (sockets s)"
    and "timers s = [] \<or>
        (\<exists>i due. timers s = [(i, due)] \<and> reconnectTimer s = Some i \<and> 0 < i \<and>
           ws s = None \<and> phase s = Mounted)"
    and "0 < next_timer s"
    and "phase s = Created \<Longrightarrow> sockets s = []"
    and "\<And>h. h < length (sockets s) \<Longrightarrow>
           readyState (sockets s ! h) = CONNECTING \<or> readyState (sockets s ! h) = OPEN \<Longrightarrow>
           onclose (sockets s ! h) \<and> phase s = Mounted"
    and "\<And>h. phase s = Unmounted \<Longrightarrow> h < length (sockets s) \<Longrightarrow>
           onclose (sockets s ! h) \<Longrightarrow> readyState (sockets s ! h) = CLOSED"
  shows "conn_inv s"
  unfolding conn_inv_def using assms by blast

lemma conn_inv_live:
  "conn_inv s \<Longrightarrow> h < length (sockets s) \<Longrightarrow> readyState (sockets s ! h) \<noteq> CLOSED \<Longrightarrow>
   ws s = Some h"
  unfolding conn_inv_def by blast

lemma conn_inv_ws: "conn_inv s \<Longrightarrow> ws s = Some h \<Longrightarrow> h < length (sockets s)"
  unfolding conn_inv_def by blast

lemma conn_inv_timers:
  "conn_inv s \<Longrightarrow>
   timers s = [] \<or>
   (\<exists>i due. timers s = [(i, due)] \<and> reconnectTimer s = Some i \<and> 0 < i \<and>
      ws s = None \<and> phase s = Mounted)"
  unfolding conn_inv_def by blast

lemma conn_inv_next_timer: "conn_inv s \<Longrightarrow> 0 < next_timer s"
  unfolding conn_inv_def by blast

lemma conn_inv_Created: "conn_inv s \<Longrightarrow> phase s = Created \<Longrightarrow> sockets s = []"
  unfolding conn_inv_def by blast

lemma conn_inv_handler:
  "conn_inv s \<Longrightarrow> h < length (sockets s) \<Longrightarrow>
   readyState (sockets s ! h) = CONNECTING \<or> readyState (sockets s ! h) = OPEN \<Longrightarrow>
   onclose (sockets s ! h) \<and> phase s = Mounted"
  unfolding conn_inv_def by blast

lemma conn_inv_Unmounted:
  "conn_inv s \<Longrightarrow> phase s = Unmounted \<Longrightarrow> h < length (sockets s) \<Longrightarrow>
   onclose (sockets s ! h) \<Longrightarrow> readyState (sockets s ! h) = CLOSED"
  unfolding conn_inv_def by blast

lemma nth_update_if: "k < length xs \<Longrightarrow> xs[h := x] ! k = (if h = k then x else xs ! k)"
  by (cases "h = k") simp_all

lemma conn_inv_update_socket:
  assumes inv: "conn_inv s"
    and same: "ws s' = ws s" "timers s' = timers s" "reconnectTimer s' = reconnectTimer s"
      "next_timer s' = next_timer s" "phase s' = phase s"
    and upd: "sockets s' = (sockets s)[h := x]"
    and closed: "ws s \<noteq> Some h \<Longrightarrow> readyState x = CLOSED"
    and handler: "readyState x = CONNECTING \<or> readyState x = OPEN \<Longrightarrow>
                  onclose x \<and> phase s = Mounted"
    and unmounted: "phase s = Unmounted \<Longrightarrow> onclose x \<Longrightarrow> readyState x = CLOSED"
  shows "conn_inv s'"
proof (rule conn_invI)
  show "readyState (sockets s' ! k) = CLOSED" if "k < length (sockets s')" "ws s' \<noteq> Some k" for k
    using that same upd closed conn_inv_live [OF inv, of k] by (auto simp: nth_update_if)
  show "k < length (sockets s')" if "ws s' = Some k" for k
    using that same upd conn_inv_ws [OF inv, of k] by simp
  show "timers s' = [] \<or>
        (\<exists>i due. timers s' = [(i, due)] \<and> reconnectTimer s' = Some i \<and> 0 < i \<and>
           ws s' = None \<and> phase s' = Mounted)"
    using conn_inv_timers [OF inv] same by simp
  show "0 < next_timer s'"
    using conn_inv_next_timer [OF inv] same by simp
  show "sockets s' = []" if "phase s' = Created"
    using that same upd conn_inv_Created [OF inv] by simp
  show "onclose (sockets s' ! k) \<and> phase s' = Mounted"
    if "k < length (sockets s')"
      "readyState (sockets s' ! k) = CONNECTING \<or> readyState (sockets s' ! k) = OPEN" for k
    using that same upd handler conn_inv_handler [OF inv, of k]
    by (auto simp: nth_update_if split: if_splits)
  show "readyState (sockets s' ! k) = CLOSED"
    if "phase s' = Unmounted" "k < length (sockets s')" "onclose (sockets s' ! k)" for k
    using that same upd unmounted conn_inv_Unmounted [OF inv, of k]
    by (auto simp: nth_update_if split: if_splits)
qed

lemma WebSocket_close_simps [simp]:
  "onclose (WebSocket_close x) = onclose x"
  "readyState (WebSocket_close x) \<noteq> CONNECTING"
  "readyState (WebSocket_close x) \<noteq> OPEN"
  "(readyState (WebSocket_close x) = CLOSED) = (readyState x = CLOSED)"
  by (simp_all add: WebSocket_close_def)

lemma conn_inv_SocketOpen:
  assumes inv: "conn_inv s" and h: "h < length (sockets s)"
    and c: "readyState (sockets s ! h) = CONNECTING"
  shows "conn_inv (ws_onopen (set_readyState h OPEN s))"
proof (rule conn_inv_update_socket [OF inv])
  show "sockets (ws_onopen (set_readyState h OPEN s)) =
        (sockets s)[h := (sockets s ! h)\<lparr>readyState := OPEN\<rparr>]"
    by simp
  show "readyState ((sockets s ! h)\<lparr>readyState := OPEN\<rparr>) = CLOSED" if "ws s \<noteq> Some h"
    using that conn_inv_live [OF inv h] c by simp
  show "onclose ((sockets s ! h)\<lparr>readyState := OPEN\<rparr>) \<and> phase s = Mounted"
    using conn_inv_handler [OF inv h] c by simp
  show "readyState ((sockets s ! h)\<lparr>readyState := OPEN\<rparr>) = CLOSED" if "phase s = Unmounted"
    using that conn_inv_handler [OF inv h] c by simp
qed simp_all

lemma conn_inv_ws_close:
  assumes inv: "conn_inv s"
  shows "conn_inv (ws_close h s)"
proof (cases "h < length (sockets s)")
  case True
  show ?thesis
  proof (rule conn_inv_update_socket [OF inv])
    show "sockets (ws_close h s) = (sockets s)[h := WebSocket_close (sockets s ! h)]"
      by simp
    show "readyState (WebSocket_close (sockets s ! h)) = CLOSED" if "ws s \<noteq> Some h"
      using that conn_inv_live [OF inv True] by auto
    show "readyState (WebSocket_close (sockets s ! h)) = CLOSED"
      if "phase s = Unmounted" "onclose (WebSocket_close (sockets s ! h))"
      using that conn_inv_Unmounted [OF inv _ True] by simp
  qed simp_all
next
  case False
  then have "conn_inv (ws_close h s) = conn_inv s"
    by (intro conn_inv_cong) (simp_all add: list_update_beyond)
  then show ?thesis
    using inv by simp
qed

lemma conn_inv_console: "conn_inv (s\<lparr>console := c\<rparr>) = conn_inv s"
  by (rule conn_inv_cong) simp_all

lemma conn_inv_ws_onerror: "conn_inv s \<Longrightarrow> conn_inv (ws_onerror s)"
  by (cases "ws s") (simp_all add: ws_onerror_def Let_def conn_inv_console conn_inv_ws_close)

lemma conn_inv_closed:
  assumes inv: "conn_inv s" and h: "h < length (sockets s)"
  shows "conn_inv (set_readyState h CLOSED s)"
  by (rule conn_inv_update_socket [OF inv, where h = h and x = "(sockets s ! h)\<lparr>readyState := CLOSED\<rparr>"])
     simp_all

lemma conn_inv_ws_onclose:
  assumes inv: "conn_inv s" and h: "h < length (sockets s)"
    and live: "readyState (sockets s ! h) \<noteq> CLOSED" and handler: "onclose (sockets s ! h)"
  shows "conn_inv (ws_onclose (set_readyState h CLOSED s))"
proof (rule conn_invI)
  let ?s = "ws_onclose (set_readyState h CLOSED s)"
  have wsh: "ws s = Some h"
    using conn_inv_live [OF inv h live] .
  have no_timer: "timers s = []"
    using conn_inv_timers [OF inv] wsh by auto
  have "phase s \<noteq> Created"
    using conn_inv_Created [OF inv] h by auto
  moreover have "phase s \<noteq> Unmounted"
    using conn_inv_Unmounted [OF inv _ h handler] live by auto
  ultimately have mounted: "phase s = Mounted"
    by (cases "phase s") simp_all
  show "readyState (sockets ?s ! k) = CLOSED" if "k < length (sockets ?s)" "ws ?s \<noteq> Some k" for k
    using that wsh conn_inv_live [OF inv, of k] by (auto simp: nth_update_if)
  show "k < length (sockets ?s)" if "ws ?s = Some k" for k
    using that by simp
  show "timers ?s = [] \<or>
        (\<exists>i due. timers ?s = [(i, due)] \<and> reconnectTimer ?s = Some i \<and> 0 < i \<and>
           ws ?s = None \<and> phase ?s = Mounted)"
    using no_timer mounted conn_inv_next_timer [OF inv] by simp
  show "0 < next_timer ?s"
    by simp
  show "sockets ?s = []" if "phase ?s = Created"
    using that mounted by simp
  show "onclose (sockets ?s ! k) \<and> phase ?s = Mounted"
    if "k < length (sockets ?s)"
      "readyState (sockets ?s ! k) = CONNECTING \<or> readyState (sockets ?s ! k) = OPEN" for k
    using that mounted conn_inv_handler [OF inv, of k]
    by (auto simp: nth_update_if split: if_splits)
  show "readyState (sockets ?s ! k) = CLOSED"
    if "phase ?s = Unmounted" "k < length (sockets ?s)" "onclose (sockets ?s ! k)" for k
    using that mounted by simp
qed

lemma conn_inv_Timeout:
  assumes inv: "conn_inv s" and pending: "map_of (timers s) i = Some due"
  shows "conn_inv (connectWebSocket (clearTimeout i s))"
proof (rule conn_invI)
  let ?s = "connectWebSocket (clearTimeout i s)"
  from pending have "timers s \<noteq> []"
    by auto
  with conn_inv_timers [OF inv] obtain j d where
    t: "timers s = [(j, d)]" and none: "ws s = None" and mounted: "phase s = Mounted"
    by auto
  from pending t have ji: "j = i"
    by (simp split: if_splits)
  have all_closed: "readyState (sockets s ! k) = CLOSED" if "k < length (sockets s)" for k
    using conn_inv_live [OF inv that] none by auto
  show "readyState (sockets ?s ! k) = CLOSED" if "k < length (sockets ?s)" "ws ?s \<noteq> Some k" for k
    using that all_closed [of k] by (auto simp: nth_append)
  show "k < length (sockets ?s)" if "ws ?s = Some k" for k
    using that by auto
  show "timers ?s = [] \<or>
        (\<exists>i due. timers ?s = [(i, due)] \<and> reconnectTimer ?s = Some i \<and> 0 < i \<and>
           ws ?s = None \<and> phase ?s = Mounted)"
    using t ji by simp
  show "0 < next_timer ?s"
    using conn_inv_next_timer [OF inv] by simp
  show "sockets ?s = []" if "phase ?s = Created"
    using that mounted by simp
  show "onclose (sockets ?s ! k) \<and> phase ?s = Mounted"
    if "k < length (sockets ?s)"
      "readyState (sockets ?s ! k) = CONNECTING \<or> readyState (sockets ?s ! k) = OPEN" for k
    using that mounted all_closed [of k] by (auto simp: nth_append split: if_splits)
  show "readyState (sockets ?s ! k) = CLOSED"
    if "phase ?s = Unmounted" "k < length (sockets ?s)" "onclose (sockets ?s ! k)" for k
    using that mounted by simp
qed

lemma conn_inv_onMounted: "conn_inv s \<Longrightarrow> phase s = Created \<Longrightarrow> conn_inv (onMounted s)"
  by (auto simp: conn_inv_def nth_append)

lemma conn_inv_onUnmounted: "conn_inv s \<Longrightarrow> phase s = Mounted \<Longrightarrow> conn_inv (onUnmounted s)"
  by (auto simp: conn_inv_def onUnmounted_changes timers_cancel_reconnect sockets_close_connection
        nth_update_if WebSocket_close_def split: option.splits)

lemma conn_inv_gameLoop: "conn_inv (gameLoop l pad now s) = conn_inv s"
  by (rule conn_inv_cong) simp_all

lemma conn_inv_startGamepadPolling: "conn_inv (startGamepadPolling s) = conn_inv s"
  by (rule conn_inv_cong) simp_all

lemma conn_inv_cancelAnimationFrame: "conn_inv (cancelAnimationFrame f s) = conn_inv s"
  by (rule conn_inv_cong) simp_all

lemma conn_inv_keyState: "conn_inv (s\<lparr>keyState := k\<rparr>) = conn_inv s"
  by (rule conn_inv_cong) simp_all

lemma conn_inv_clock: "conn_inv (s\<lparr>clock := t\<rparr>) = conn_inv s"
  by (rule conn_inv_cong) simp_all

lemma conn_inv_handle:
  assumes "conn_inv s"
  shows "case handle e s of None \<Rightarrow> True | Some s' \<Rightarrow> conn_inv s'"
proof (cases e)
  case (SocketClose h)
  then show ?thesis
    using assms by (simp add: conn_inv_ws_onclose conn_inv_closed)
next
  case (Timeout i)
  then show ?thesis
    using assms by (simp add: conn_inv_Timeout split: option.split)
next
  case (AnimationFrame f pad)
  then show ?thesis
    using assms
    by (simp add: conn_inv_gameLoop conn_inv_cancelAnimationFrame split: option.split)
qed (use assms in \<open>simp_all add: conn_inv_onMounted conn_inv_onUnmounted conn_inv_keyState
      conn_inv_startGamepadPolling conn_inv_SocketOpen conn_inv_ws_onerror\<close>)

lemma conn_inv_step: "conn_inv s \<Longrightarrow> step s te = Some s' \<Longrightarrow> conn_inv s'"
  using conn_inv_handle [of "s\<lparr>clock := fst te\<rparr>" "snd te"]
  by (cases te) (simp add: step_def conn_inv_clock split: if_splits)

lemma run_invariant:
  assumes pres: "\<And>s te s'. P s \<Longrightarrow> step s te = Some s' \<Longrightarrow> P s'"
    and "P s" and "run s tes = Some s'"
  shows "P s'"
  using assms(2,3)
proof (induction tes arbitrary: s)
  case Nil
  then show ?case by simp
next
  case (Cons te tes)
  from Cons.prems(2) obtain s1 where st: "step s te = Some s1" and r: "run s1 tes = Some s'"
    by (cases "step s te") simp_all
  from pres [OF Cons.prems(1) st] have "P s1" .
  from Cons.IH [OF this r] show ?case .
qed

lemma run_append:
  "run s (tes1 @ tes2) = (case run s tes1 of None \<Rightarrow> None | Some s1 \<Rightarrow> run s1 tes2)"
  by (induction tes1 arbitrary: s) (simp_all split: option.split)

lemma reachable_conn_inv: "run init tes = Some s \<Longrightarrow> conn_inv s"
  by (rule run_invariant [where P = conn_inv, OF conn_inv_step conn_inv_init])

section \<open>Fusion\<close>

lemma clamp1_bounds: "- 1 \<le> clamp1 v \<and> clamp1 v \<le> 1"
  by (simp add: clamp1_def)

lemma keyboard_lx_cases: "keyboard_lx k = - 1 \<or> keyboard_lx k = 0 \<or> keyboard_lx k = 1"
  by (simp add: keyboard_lx_def)

lemma keyboard_ly_cases: "keyboard_ly k = - 1 \<or> keyboard_ly k = 0 \<or> keyboard_ly k = 1"
  by (simp add: keyboard_ly_def)

text \<open>
  C1: whatever keys are held and whether or not a gamepad is present, whatever its axes
  report, both fused axes lie in \<open>[-1, 1]\<close>.
\<close>

theorem fuse_axes_in_range:
  "- 1 \<le> lx (fuse k pad) \<and> lx (fuse k pad) \<le> 1 \<and>
   - 1 \<le> ly (fuse k pad) \<and> ly (fuse k pad) \<le> 1"
proof (cases pad)
  case None
  with keyboard_lx_cases [of k] keyboard_ly_cases [of k] show ?thesis
    by (auto simp: fuse_def)
next
  case (Some g)
  then show ?thesis
    by (simp add: fuse_def clamp1_bounds)
qed

text \<open>
  The keyboard sums are the same in double arithmetic: \<open>-1\<close>, \<open>0\<close> and \<open>1\<close> are doubles.
\<close>

lemma round_double_unit:
  "round_double 0 = 0" "round_double 1 = 1" "round_double (- 1) = - 1"
  by code_simp+

lemma double_add_unit:
  "double_add 0 (- 1) = - 1" "double_add 0 1 = 1" "double_add (- 1) 1 = 0"
  by (simp_all add: double_add_def round_double_unit)

lemma double_sum_keys:
  "double_sum ((if key_a k then [- 1] else []) @ (if key_d k then [1] else [])) = keyboard_lx k"
  "double_sum ((if key_w k then [- 1] else []) @ (if key_s k then [1] else [])) = keyboard_ly k"
  by (simp_all add: double_sum_def double_add_unit keyboard_lx_def keyboard_ly_def)

lemma double_sum_snoc: "double_sum (xs @ [v]) = double_add (double_sum xs) v"
  by (simp add: double_sum_def)

lemma double_sum_contributions:
  "double_sum (contributions_x k pad) =
     (case pad of None \<Rightarrow> keyboard_lx k | Some g \<Rightarrow> double_add (keyboard_lx k) (axes0 g))"
  "double_sum (contributions_y k pad) =
     (case pad of None \<Rightarrow> keyboard_ly k | Some g \<Rightarrow> double_add (keyboard_ly k) (axes1 g))"
proof -
  show "double_sum (contributions_x k pad) =
     (case pad of None \<Rightarrow> keyboard_lx k | Some g \<Rightarrow> double_add (keyboard_lx k) (axes0 g))"
  proof (cases pad)
    case None
    then show ?thesis
      using double_sum_keys(1) [of k] by (simp add: contributions_x_def)
  next
    case (Some g)
    have "contributions_x k pad =
        ((if key_a k then [- 1] else []) @ (if key_d k then [1] else [])) @ [axes0 g]"
      by (simp add: contributions_x_def Some)
    then show ?thesis
      by (simp only: double_sum_snoc double_sum_keys Some option.case)
  qed
  show "double_sum (contributions_y k pad) =
     (case pad of None \<Rightarrow> keyboard_ly k | Some g \<Rightarrow> double_add (keyboard_ly k) (axes1 g))"
  proof (cases pad)
    case None
    then show ?thesis
      using double_sum_keys(2) [of k] by (simp add: contributions_y_def)
  next
    case (Some g)
    have "contributions_y k pad =
        ((if key_w k then [- 1] else []) @ (if key_s k then [1] else [])) @ [axes1 g]"
      by (simp add: contributions_y_def Some)
    then show ?thesis
      by (simp only: double_sum_snoc double_sum_keys Some option.case)
  qed
qed

text \<open>
  The doubles written \<open>1.0\<close> and \<open>0.9\<close> add up to the double written \<open>1.9\<close>, which is above 1.
\<close>

lemma double_add_example:
  "double_add 1 (round_double (9 / 10)) = round_double (19 / 10)"
  "round_double (19 / 10) = 8556839292003942 / 2 ^ 52"
  by code_simp+

text \<open>
  The rounding of the sum shows in the text sent: with \<open>d\<close> held and the stick at the
  double written \<open>-0.0005\<close> the sum is a double above \<open>0.9995\<close>, sent as \<open>1.000\<close>, while the
  exact sum of the two doubles is below \<open>0.9995\<close>.
\<close>

lemma double_add_rounds:
  "lx (fuse \<lparr>key_w = False, key_a = False, key_s = False, key_d = True\<rparr>
        (Some \<lparr>axes0 = round_double (- 5 / 10000), axes1 = 0,
                button0 = False, button1 = False\<rparr>)) = 4501347827556811 / 2 ^ 52"
  "toFixed3 (4501347827556811 / 2 ^ 52) = ''1.000''"
  "1 + round_double (- 5 / 10000) < 9995 / 10000"
  "toFixed3 (1 + round_double (- 5 / 10000)) = ''0.999''"
  by code_simp+

text \<open>
  C8: each fused axis is the sum of the contributions of all sources, clamped once after
  the summation, the sum being the one the machine computes in double arithmetic;
  holding both keys of an axis contributes as much as holding neither, to the sum and to
  the fused axis; a stick at 0.9 with the key \<open>d\<close> held sums to 1.9 and fuses to 1 (0.9 and
  1.9 being the doubles so written).
\<close>

theorem fuse_is_clamped_sum:
  "(lx (fuse k pad), ly (fuse k pad)) = fuse_spec k pad \<and>
   double_sum (contributions_x (k\<lparr>key_a := True, key_d := True\<rparr>) pad) =
     double_sum (contributions_x (k\<lparr>key_a := False, key_d := False\<rparr>) pad) \<and>
   double_sum (contributions_y (k\<lparr>key_w := True, key_s := True\<rparr>) pad) =
     double_sum (contributions_y (k\<lparr>key_w := False, key_s := False\<rparr>) pad) \<and>
   lx (fuse (k\<lparr>key_a := True, key_d := True\<rparr>) pad) =
     lx (fuse (k\<lparr>key_a := False, key_d := False\<rparr>) pad) \<and>
   ly (fuse (k\<lparr>key_w := True, key_s := True\<rparr>) pad) =
     ly (fuse (k\<lparr>key_w := False, key_s := False\<rparr>) pad) \<and>
   double_sum (contributions_x (k\<lparr>key_a := False, key_d := True\<rparr>)
     (Some (g\<lparr>axes0 := round_double (9 / 10)\<rparr>))) = round_double (19 / 10) \<and>
   lx (fuse (k\<lparr>key_a := False, key_d := True\<rparr>)
     (Some (g\<lparr>axes0 := round_double (9 / 10)\<rparr>))) = 1"
proof -
  have spec: "(lx (fuse k pad), ly (fuse k pad)) = fuse_spec k pad" for k pad
  proof (cases pad)
    case None
    with keyboard_lx_cases [of k] keyboard_ly_cases [of k] show ?thesis
      by (auto simp: fuse_def fuse_spec_def double_sum_contributions clamp1_def)
  next
    case (Some g)
    then show ?thesis
      by (simp add: fuse_def fuse_spec_def double_sum_contributions)
  qed
  have kx: "keyboard_lx (k\<lparr>key_a := True, key_d := True\<rparr>) = 0"
    "keyboard_lx (k\<lparr>key_a := False, key_d := False\<rparr>) = 0"
    "keyboard_lx (k\<lparr>key_a := False, key_d := True\<rparr>) = 1"
    by (simp_all add: keyboard_lx_def)
  have ky: "keyboard_ly (k\<lparr>key_w := True, key_s := True\<rparr>) = 0"
    "keyboard_ly (k\<lparr>key_w := False, key_s := False\<rparr>) = 0"
    by (simp_all add: keyboard_ly_def)
  have sums: "double_sum (contributions_x (k\<lparr>key_a := True, key_d := True\<rparr>) pad) =
      double_sum (contributions_x (k\<lparr>key_a := False, key_d := False\<rparr>) pad)"
    "double_sum (contributions_y (k\<lparr>key_w := True, key_s := True\<rparr>) pad) =
      double_sum (contributions_y (k\<lparr>key_w := False, key_s := False\<rparr>) pad)"
    by (simp_all only: double_sum_contributions kx ky)
  have fused: "lx (fuse (k\<lparr>key_a := True, key_d := True\<rparr>) pad) =
      lx (fuse (k\<lparr>key_a := False, key_d := False\<rparr>) pad)"
    "ly (fuse (k\<lparr>key_w := True, key_s := True\<rparr>) pad) =
      ly (fuse (k\<lparr>key_w := False, key_s := False\<rparr>) pad)"
    by (simp_all add: fuse_def kx ky split: option.split)
  have sum19: "double_sum (contributions_x (k\<lparr>key_a := False, key_d := True\<rparr>)
      (Some (g\<lparr>axes0 := round_double (9 / 10)\<rparr>))) = round_double (19 / 10)"
    by (simp add: double_sum_contributions kx double_add_example(1))
  have "lx (fuse (k\<lparr>key_a := False, key_d := True\<rparr>)
      (Some (g\<lparr>axes0 := round_double (9 / 10)\<rparr>))) = clamp1 (round_double (19 / 10))"
    by (simp add: fuse_def kx double_add_example(1))
  also have "\<dots> = 1"
    by (simp add: double_add_example(2) clamp1_def)
  finally have one: "lx (fuse (k\<lparr>key_a := False, key_d := True\<rparr>)
      (Some (g\<lparr>axes0 := round_double (9 / 10)\<rparr>))) = 1" .
  from spec [of k pad] sums fused sum19 one show ?thesis
    by (intro conjI)
qed

text \<open>
  C10: without a gamepad the fused command is the keyboard sum as it is, not clamped:
  each axis is the sum of its two key contributions, hence one of \<open>-1\<close>, \<open>0\<close>, \<open>1\<close>, and
  both triggers are false.
\<close>

theorem fuse_without_gamepad:
  "fuse k None = \<lparr>lx = keyboard_lx k, ly = keyboard_ly k, cross = False, circle = False\<rparr> \<and>
   lx (fuse k None) \<in> {- 1, 0, 1} \<and> ly (fuse k None) \<in> {- 1, 0, 1} \<and>
   cross (fuse k None) = False \<and> circle (fuse k None) = False \<and>
   keyboard_lx k = (if key_a k then - 1 else 0) + (if key_d k then 1 else 0) \<and>
   keyboard_ly k = (if key_w k then - 1 else 0) + (if key_s k then 1 else 0)"
  using keyboard_lx_cases [of k] keyboard_ly_cases [of k]
  by (auto simp: fuse_def keyboard_lx_def keyboard_ly_def)

section \<open>The transmitter\<close>

lemma ws_is_open_iff:
  "ws_is_open s \<longleftrightarrow> (\<exists>h. ws s = Some h \<and> h < length (sockets s) \<and> readyState (sockets s ! h) = OPEN)"
  by (simp add: ws_is_open_def split: option.split)

lemma transmit_changes:
  "ws_is_open s \<Longrightarrow>
   sent (transmit c now s) =
     (if now - lastSentTime s > SEND_INTERVAL
      then (the (ws s), now, JSON_stringify (make_controlData c)) # sent s else sent s)"
  "ws_is_open s \<Longrightarrow>
   lastSentTime (transmit c now s) =
     (if now - lastSentTime s > SEND_INTERVAL then now else lastSentTime s)"
  by (auto simp: transmit_def ws_is_open_iff)

lemma gameLoop_sent:
  "sent (gameLoop l pad now s) =
     (if ws_is_open s \<and> now - lastSentTime s > SEND_INTERVAL
      then (the (ws s), now, JSON_stringify (make_controlData (fuse (keyState s) pad))) # sent s
      else sent s)"
  by (simp add: gameLoop_def Let_def transmit_changes)

lemma gameLoop_lastSentTime:
  "lastSentTime (gameLoop l pad now s) =
     (if ws_is_open s \<and> now - lastSentTime s > SEND_INTERVAL then now else lastSentTime s)"
  by (simp add: gameLoop_def Let_def transmit_changes)

lemma ws_is_open_cong: "ws s' = ws s \<Longrightarrow> sockets s' = sockets s \<Longrightarrow> ws_is_open s' = ws_is_open s"
  by (simp add: ws_is_open_def split: option.split)

lemma ws_state_cong: "ws s' = ws s \<Longrightarrow> sockets s' = sockets s \<Longrightarrow> ws_state s' = ws_state s"
  by (simp add: ws_state_def split: option.split)

lemma report_unconnected_changes:
  "logCounter (report_unconnected l s) = (logCounter s)[l := Suc (logCounter s ! l)]"
  "\<not> ws_is_open s \<Longrightarrow>
   console (report_unconnected l s) =
     (if Suc (logCounter s ! l) mod 60 = 0
      then Warn_not_connected (ws_state s) # console s else console s)"
proof -
  let ?s1 = "s\<lparr>logCounter := (logCounter s)[l := logCounter s ! l + 1]\<rparr>"
  have o: "ws_is_open ?s1 = ws_is_open s"
    by (rule ws_is_open_cong) simp_all
  have st: "ws_state ?s1 = ws_state s"
    by (rule ws_state_cong) simp_all
  show "logCounter (report_unconnected l s) = (logCounter s)[l := Suc (logCounter s ! l)]"
    by (simp add: report_unconnected_def Let_def)
  show "console (report_unconnected l s) =
     (if Suc (logCounter s ! l) mod 60 = 0
      then Warn_not_connected (ws_state s) # console s else console s)"
    if "\<not> ws_is_open s"
    using that o st by (simp add: report_unconnected_def Let_def)
qed

lemma gameLoop_logCounter:
  "logCounter (gameLoop l pad now s) =
     (if ws_is_open s then logCounter s else (logCounter s)[l := Suc (logCounter s ! l)])"
  by (simp add: gameLoop_def Let_def report_unconnected_changes)

lemma gameLoop_console:
  "console (gameLoop l pad now s) =
     (if \<not> ws_is_open s \<and> Suc (logCounter s ! l) mod 60 = 0
      then Warn_not_connected (ws_state s) # console s else console s)"
  by (simp add: gameLoop_def Let_def report_unconnected_changes)

lemma requestAnimationFrame_changes [simp]:
  "frames (requestAnimationFrame l s) = frames s @ [(next_frame s, l)]"
  "animationFrameId (requestAnimationFrame l s) = Some (next_frame s)"
  "next_frame (requestAnimationFrame l s) = Suc (next_frame s)"
  by (simp_all add: requestAnimationFrame_def)

lemma gameLoop_frames:
  "frames (gameLoop l pad now s) = frames s @ [(next_frame s, l)]"
  "animationFrameId (gameLoop l pad now s) = Some (next_frame s)"
  "next_frame (gameLoop l pad now s) = Suc (next_frame s)"
  by (simp_all add: gameLoop_def Let_def)


lemma send_invI:
  assumes "lastSentTime s \<le> clock s"
    and "hd (send_times s @ [0]) = lastSentTime s"
    and "spaced (send_times s @ [0])"
    and "\<And>p. p \<in> set (timers s) \<Longrightarrow> lastSentTime s + RECONNECT_DELAY \<le> snd p"
    and "\<And>h. ws s = Some h \<Longrightarrow> 0 < h \<Longrightarrow> h < length (sockets s) \<Longrightarrow>
           readyState (sockets s ! h) = CONNECTING \<Longrightarrow>
           lastSentTime s + RECONNECT_DELAY \<le> clock s"
    and "sockets s = [] \<or> readyState (sockets s ! 0) = CONNECTING \<Longrightarrow> sent s = []"
  shows "send_inv s"
  unfolding send_inv_def using assms by blast

lemma send_inv_clock: "send_inv s \<Longrightarrow> lastSentTime s \<le> clock s"
  unfolding send_inv_def by blast

lemma send_inv_hd: "send_inv s \<Longrightarrow> hd (send_times s @ [0]) = lastSentTime s"
  unfolding send_inv_def by blast

lemma send_inv_spaced: "send_inv s \<Longrightarrow> spaced (send_times s @ [0])"
  unfolding send_inv_def by blast

lemma send_inv_timers:
  "send_inv s \<Longrightarrow> p \<in> set (timers s) \<Longrightarrow> lastSentTime s + RECONNECT_DELAY \<le> snd p"
  unfolding send_inv_def by blast

lemma send_inv_connecting:
  "send_inv s \<Longrightarrow> ws s = Some h \<Longrightarrow> 0 < h \<Longrightarrow> h < length (sockets s) \<Longrightarrow>
   readyState (sockets s ! h) = CONNECTING \<Longrightarrow> lastSentTime s + RECONNECT_DELAY \<le> clock s"
  unfolding send_inv_def by blast

lemma send_inv_first:
  "send_inv s \<Longrightarrow> sockets s = [] \<or> readyState (sockets s ! 0) = CONNECTING \<Longrightarrow> sent s = []"
  unfolding send_inv_def by blast

lemma send_inv_init: "send_inv init"
  by (simp add: send_inv_def init_def send_times_def)

lemma send_times_cong: "sent s' = sent s \<Longrightarrow> send_times s' = send_times s"
  by (simp add: send_times_def)

lemma send_inv_cong:
  assumes "lastSentTime s' = lastSentTime s" "clock s' = clock s" "sent s' = sent s"
    "timers s' = timers s" "ws s' = ws s" "sockets s' = sockets s"
  shows "send_inv s' = send_inv s"
  by (simp add: send_inv_def assms send_times_cong [OF assms(3)])

lemma send_inv_advance:
  assumes inv: "send_inv s" and t: "clock s \<le> t"
  shows "send_inv (s\<lparr>clock := t\<rparr>)"
proof (rule send_invI)
  let ?s = "s\<lparr>clock := t\<rparr>"
  have times: "send_times ?s = send_times s"
    by (rule send_times_cong) simp
  show "lastSentTime ?s \<le> clock ?s"
    using send_inv_clock [OF inv] t by simp
  show "hd (send_times ?s @ [0]) = lastSentTime ?s"
    using send_inv_hd [OF inv] times by simp
  show "spaced (send_times ?s @ [0])"
    using send_inv_spaced [OF inv] times by simp
  show "lastSentTime ?s + RECONNECT_DELAY \<le> snd p" if "p \<in> set (timers ?s)" for p
    using send_inv_timers [OF inv, of p] that by simp
  show "lastSentTime ?s + RECONNECT_DELAY \<le> clock ?s"
    if "ws ?s = Some h" "0 < h" "h < length (sockets ?s)"
      "readyState (sockets ?s ! h) = CONNECTING" for h
    using send_inv_connecting [OF inv, of h] that t by simp
  show "sent ?s = []" if "sockets ?s = [] \<or> readyState (sockets ?s ! 0) = CONNECTING"
    using send_inv_first [OF inv] that by simp
qed


lemma send_inv_update:
  assumes inv: "send_inv s"
    and same: "lastSentTime s' = lastSentTime s" "clock s' = clock s" "sent s' = sent s"
      "ws s' = ws s"
    and timers: "set (timers s') \<subseteq> set (timers s)"
    and upd: "sockets s' = sockets s \<or> sockets s' = (sockets s)[h := x]"
    and nc: "readyState x = CONNECTING \<Longrightarrow> h < length (sockets s) \<Longrightarrow>
             readyState (sockets s ! h) = CONNECTING"
  shows "send_inv s'"
proof (rule send_invI)
  have times: "send_times s' = send_times s"
    by (rule send_times_cong) (rule same)
  have len: "length (sockets s') = length (sockets s)"
    using upd by auto
  have connecting: "readyState (sockets s ! k) = CONNECTING"
    if "k < length (sockets s)" "readyState (sockets s' ! k) = CONNECTING" for k
    using that upd nc by (auto simp: nth_update_if split: if_splits)
  show "lastSentTime s' \<le> clock s'"
    using send_inv_clock [OF inv] same by simp
  show "hd (send_times s' @ [0]) = lastSentTime s'"
    using send_inv_hd [OF inv] times same by simp
  show "spaced (send_times s' @ [0])"
    using send_inv_spaced [OF inv] times by simp
  show "lastSentTime s' + RECONNECT_DELAY \<le> snd p" if "p \<in> set (timers s')" for p
    using send_inv_timers [OF inv, of p] that timers same by auto
  show "lastSentTime s' + RECONNECT_DELAY \<le> clock s'"
    if "ws s' = Some k" "0 < k" "k < length (sockets s')"
      "readyState (sockets s' ! k) = CONNECTING" for k
    using send_inv_connecting [OF inv, of k] connecting [of k] that same len by simp
  show "sent s' = []" if "sockets s' = [] \<or> readyState (sockets s' ! 0) = CONNECTING"
  proof (cases "sockets s = []")
    case True
    then show ?thesis
      using send_inv_first [OF inv] same by simp
  next
    case False
    then have "0 < length (sockets s)"
      by simp
    from connecting [OF this] that False len have "readyState (sockets s ! 0) = CONNECTING"
      by auto
    then show ?thesis
      using send_inv_first [OF inv] same by simp
  qed
qed

lemma send_inv_SocketOpen:
  "send_inv s \<Longrightarrow> send_inv (ws_onopen (set_readyState h OPEN s))"
  by (rule send_inv_update
        [where s = s and h = h and x = "(sockets s ! h)\<lparr>readyState := OPEN\<rparr>"])
     simp_all

lemma send_inv_closed:
  "send_inv s \<Longrightarrow> send_inv (set_readyState h CLOSED s)"
  by (rule send_inv_update
        [where s = s and h = h and x = "(sockets s ! h)\<lparr>readyState := CLOSED\<rparr>"])
     simp_all

lemma send_inv_ws_onerror: "send_inv s \<Longrightarrow> send_inv (ws_onerror s)"
  by (rule send_inv_update
        [where s = s and h = "the (ws s)" and x = "WebSocket_close (sockets s ! the (ws s))"])
     (simp_all add: sockets_ws_onerror split: option.split)

lemma send_inv_onUnmounted: "send_inv s \<Longrightarrow> send_inv (onUnmounted s)"
  by (rule send_inv_update
        [where s = s and h = "the (ws s)"
           and x = "WebSocket_close ((sockets s ! the (ws s))\<lparr>onclose := False\<rparr>)"])
     (auto simp: onUnmounted_changes timers_cancel_reconnect sockets_close_connection
        split: option.split)

lemma send_inv_ws_onclose:
  assumes inv: "send_inv s"
  shows "send_inv (ws_onclose s)"
proof (rule send_invI)
  let ?s = "ws_onclose s"
  have times: "send_times ?s = send_times s"
    by (rule send_times_cong) simp
  show "lastSentTime ?s \<le> clock ?s"
    using send_inv_clock [OF inv] by simp
  show "hd (send_times ?s @ [0]) = lastSentTime ?s"
    using send_inv_hd [OF inv] times by simp
  show "spaced (send_times ?s @ [0])"
    using send_inv_spaced [OF inv] times by simp
  show "lastSentTime ?s + RECONNECT_DELAY \<le> snd p" if "p \<in> set (timers ?s)" for p
    using send_inv_timers [OF inv, of p] send_inv_clock [OF inv] that by auto
  show "lastSentTime ?s + RECONNECT_DELAY \<le> clock ?s"
    if "ws ?s = Some h" for h
    using that by simp
  show "sent ?s = []" if "sockets ?s = [] \<or> readyState (sockets ?s ! 0) = CONNECTING"
    using send_inv_first [OF inv] that by simp
qed

lemma send_inv_Timeout:
  assumes inv: "send_inv s" and pending: "map_of (timers s) i = Some due"
    and due: "due \<le> clock s"
  shows "send_inv (connectWebSocket (clearTimeout i s))"
proof (rule send_invI)
  let ?s = "connectWebSocket (clearTimeout i s)"
  have times: "send_times ?s = send_times s"
    by (rule send_times_cong) simp
  from pending have "(i, due) \<in> set (timers s)"
    by (rule map_of_SomeD)
  from send_inv_timers [OF inv this] due
  have late: "lastSentTime s + RECONNECT_DELAY \<le> clock s"
    by simp
  show "lastSentTime ?s \<le> clock ?s"
    using send_inv_clock [OF inv] by simp
  show "hd (send_times ?s @ [0]) = lastSentTime ?s"
    using send_inv_hd [OF inv] times by simp
  show "spaced (send_times ?s @ [0])"
    using send_inv_spaced [OF inv] times by simp
  show "lastSentTime ?s + RECONNECT_DELAY \<le> snd p" if "p \<in> set (timers ?s)" for p
    using send_inv_timers [OF inv, of p] that by simp
  show "lastSentTime ?s + RECONNECT_DELAY \<le> clock ?s"
    if "ws ?s = Some h" for h
    using late by simp
  show "sent ?s = []" if "sockets ?s = [] \<or> readyState (sockets ?s ! 0) = CONNECTING"
    using send_inv_first [OF inv] that by (cases "sockets s = []") (simp_all add: nth_append)
qed

lemma send_inv_onMounted:
  assumes inv: "send_inv s" and empty: "sockets s = []"
  shows "send_inv (onMounted s)"
proof (rule send_invI)
  let ?s = "onMounted s"
  have times: "send_times ?s = send_times s"
    by (rule send_times_cong) simp
  show "lastSentTime ?s \<le> clock ?s"
    using send_inv_clock [OF inv] by simp
  show "hd (send_times ?s @ [0]) = lastSentTime ?s"
    using send_inv_hd [OF inv] times by simp
  show "spaced (send_times ?s @ [0])"
    using send_inv_spaced [OF inv] times by simp
  show "lastSentTime ?s + RECONNECT_DELAY \<le> snd p" if "p \<in> set (timers ?s)" for p
    using send_inv_timers [OF inv, of p] that by simp
  show "lastSentTime ?s + RECONNECT_DELAY \<le> clock ?s"
    if "ws ?s = Some h" "0 < h" for h
    using that empty by simp
  show "sent ?s = []"
    using send_inv_first [OF inv] empty by simp
qed

lemma spaced_Cons: "xs \<noteq> [] \<Longrightarrow> spaced (a # xs) = (a - hd xs > SEND_INTERVAL \<and> spaced xs)"
  by (cases xs) simp_all

lemma send_inv_gameLoop:
  assumes cinv: "conn_inv s" and inv: "send_inv s"
  shows "send_inv (gameLoop l pad (clock s) s)"
proof (cases "ws_is_open s \<and> clock s - lastSentTime s > SEND_INTERVAL")
  case False
  then have "send_inv (gameLoop l pad (clock s) s) = send_inv s"
    by (intro send_inv_cong) (auto simp: gameLoop_sent gameLoop_lastSentTime)
  with inv show ?thesis
    by simp
next
  case True
  then obtain h where h: "ws s = Some h" "h < length (sockets s)"
      "readyState (sockets s ! h) = OPEN"
    by (auto simp: ws_is_open_iff)
  let ?s = "gameLoop l pad (clock s) s"
  have last: "lastSentTime ?s = clock s"
    using True by (simp add: gameLoop_lastSentTime)
  have times: "send_times ?s = clock s # send_times s"
    using True by (simp add: send_times_def gameLoop_sent)
  have no_timer: "timers s = []"
    using conn_inv_timers [OF cinv] h by auto
  show ?thesis
  proof (rule send_invI)
    show "lastSentTime ?s \<le> clock ?s"
      using last by simp
    show "hd (send_times ?s @ [0]) = lastSentTime ?s"
      using last times by simp
    show "spaced (send_times ?s @ [0])"
      using times True send_inv_hd [OF inv] send_inv_spaced [OF inv]
      by (simp add: spaced_Cons)
    show "lastSentTime ?s + RECONNECT_DELAY \<le> snd p" if "p \<in> set (timers ?s)" for p
      using that no_timer by simp
    show "lastSentTime ?s + RECONNECT_DELAY \<le> clock ?s"
      if "ws ?s = Some k" "readyState (sockets ?s ! k) = CONNECTING" for k
      using that h by simp
    show "sent ?s = []" if "sockets ?s = [] \<or> readyState (sockets ?s ! 0) = CONNECTING"
    proof -
      from that h have c: "0 < length (sockets s)" "readyState (sockets s ! 0) = CONNECTING"
        by auto
      then have "ws s = Some 0"
        using conn_inv_live [OF cinv, of 0] by simp
      with h c show ?thesis
        by simp
    qed
  qed
qed

lemma send_inv_keep:
  "send_inv (cancelAnimationFrame f s) = send_inv s"
  "send_inv (startGamepadPolling s) = send_inv s"
  "send_inv (s\<lparr>keyState := k\<rparr>) = send_inv s"
  by (rule send_inv_cong; simp)+

lemma send_inv_handle:
  assumes "conn_inv s" and "send_inv s"
  shows "case handle e s of None \<Rightarrow> True | Some s' \<Rightarrow> send_inv s'"
proof (cases e)
  case Mount
  show ?thesis
  proof (cases "phase s = Created")
    case True
    from conn_inv_Created [OF assms(1) True] have "sockets s = []" .
    from send_inv_onMounted [OF assms(2) this] Mount True show ?thesis
      by simp
  next
    case False
    with Mount show ?thesis
      by simp
  qed
next
  case (AnimationFrame f pad)
  have "send_inv (gameLoop l pad (clock s) (cancelAnimationFrame f s))" for l
    using send_inv_gameLoop [of "cancelAnimationFrame f s" l pad] assms
    by (simp add: send_inv_keep conn_inv_cancelAnimationFrame)
  with AnimationFrame show ?thesis
    by (simp split: option.split)
next
  case (SocketClose h)
  then show ?thesis
    using assms by (simp add: send_inv_ws_onclose send_inv_closed)
next
  case (Timeout i)
  then show ?thesis
    using assms by (simp add: send_inv_Timeout split: option.split)
qed (use assms in \<open>simp_all add: send_inv_onUnmounted send_inv_keep send_inv_SocketOpen
      send_inv_ws_onerror\<close>)

lemma reach_inv_step:
  assumes "reach_inv s" and "step s te = Some s'"
  shows "reach_inv s'"
proof -
  obtain t e where te: "te = (t, e)"
    by (cases te)
  with assms(2) have t: "clock s \<le> t" and h: "handle e (s\<lparr>clock := t\<rparr>) = Some s'"
    by (simp_all add: step_def split: if_splits)
  from assms(1) have c: "conn_inv (s\<lparr>clock := t\<rparr>)" and d: "send_inv (s\<lparr>clock := t\<rparr>)"
    using t by (simp_all add: reach_inv_def conn_inv_clock send_inv_advance)
  from conn_inv_handle [OF c, of e] send_inv_handle [OF c d, of e] h show ?thesis
    by (simp add: reach_inv_def)
qed

lemma reachable_inv:
  assumes "run init tes = Some s"
  shows "conn_inv s \<and> send_inv s"
proof -
  have "reach_inv init"
    by (simp add: reach_inv_def conn_inv_init send_inv_init)
  from run_invariant [where P = reach_inv, OF reach_inv_step this assms] show ?thesis
    by (simp add: reach_inv_def)
qed

section \<open>The connection\<close>

lemma live_sockets_member:
  "h \<in> set (live_sockets s) \<longleftrightarrow> h < length (sockets s) \<and> readyState (sockets s ! h) \<noteq> CLOSED"
  by (auto simp: live_sockets_def)

lemma distinct_live_sockets: "distinct (live_sockets s)"
  by (simp add: live_sockets_def)

lemma length_le_1:
  assumes "distinct xs" and "\<And>x. x \<in> set xs \<Longrightarrow> x = a"
  shows "length xs \<le> 1"
proof -
  have "set xs \<subseteq> {a}"
    using assms(2) by auto
  then have "card (set xs) \<le> card {a}"
    by (intro card_mono) simp_all
  with distinct_card [OF assms(1)] show ?thesis
    by simp
qed

lemma conn_inv_one:
  assumes inv: "conn_inv s"
  shows "length (live_sockets s) + length (timers s) \<le> 1"
proof (cases "ws s")
  case None
  have "live_sockets s = []"
  proof (rule ccontr)
    assume "live_sockets s \<noteq> []"
    then obtain h where "h \<in> set (live_sockets s)"
      by (cases "live_sockets s") auto
    then have "ws s = Some h"
      using conn_inv_live [OF inv, of h] by (simp add: live_sockets_member)
    with None show False
      by simp
  qed
  moreover have "length (timers s) \<le> 1"
    using conn_inv_timers [OF inv] by auto
  ultimately show ?thesis
    by simp
next
  case (Some h)
  have "timers s = []"
    using conn_inv_timers [OF inv] Some by auto
  moreover have "length (live_sockets s) \<le> 1"
  proof (rule length_le_1 [OF distinct_live_sockets])
    fix k
    assume "k \<in> set (live_sockets s)"
    then have "ws s = Some k"
      using conn_inv_live [OF inv, of k] by (simp add: live_sockets_member)
    with Some show "k = h"
      by simp
  qed
  ultimately show ?thesis
    by simp
qed

lemma step_SocketClose:
  assumes inv: "conn_inv s" and h: "ws s = Some h" and o: "ws_is_open s" and t: "clock s \<le> t"
  shows "step s (t, SocketClose h) =
           Some (ws_onclose (set_readyState h CLOSED (s\<lparr>clock := t\<rparr>)))"
proof -
  from h o have hs: "h < length (sockets s)" "readyState (sockets s ! h) = OPEN"
    by (simp_all add: ws_is_open_iff)
  from conn_inv_handler [OF inv hs(1)] hs(2) have "onclose (sockets s ! h)"
    by simp
  with hs t show ?thesis
    by (simp add: step_def)
qed

lemma all_closed_live_sockets:
  "(\<And>k. k < length (sockets s) \<Longrightarrow> readyState (sockets s ! k) = CLOSED) \<Longrightarrow> live_sockets s = []"
  by (simp add: live_sockets_def)

text \<open>
  C2: in every reachable state at most one socket is not closed and at most one
  reconnect timer is pending, and never both (a connection attempt is a timer or a
  connecting socket).  A close event on the open connection leaves \<open>ws\<close> empty and no
  socket alive, and schedules exactly one timer, due 3000 ms later.  The runs range over
  all interleavings of the events, with further error events on any socket at any time
  and a close event on any socket that has not yet fired one.
\<close>

theorem one_connection_one_timer:
  assumes "run init tes = Some s"
  shows "length (live_sockets s) + length (timers s) \<le> 1 \<and>
         (\<forall>h t. ws s = Some h \<and> ws_is_open s \<and> clock s \<le> t \<longrightarrow>
            (\<exists>s'. step s (t, SocketClose h) = Some s' \<and> ws s' = None \<and>
               live_sockets s' = [] \<and> timers s' = [(next_timer s, t + 3000)] \<and>
               reconnectTimer s' = Some (next_timer s)))"
proof -
  from reachable_inv [OF assms] have inv: "conn_inv s"
    by simp
  have "\<exists>s'. step s (t, SocketClose h) = Some s' \<and> ws s' = None \<and>
               live_sockets s' = [] \<and> timers s' = [(next_timer s, t + 3000)] \<and>
               reconnectTimer s' = Some (next_timer s)"
    if h: "ws s = Some h" and o: "ws_is_open s" and t: "clock s \<le> t" for h t
  proof -
    let ?s = "ws_onclose (set_readyState h CLOSED (s\<lparr>clock := t\<rparr>))"
    have st: "step s (t, SocketClose h) = Some ?s"
      using step_SocketClose [OF inv h o t] .
    have no_timer: "timers s = []"
      using conn_inv_timers [OF inv] h by auto
    have hs: "h < length (sockets s)"
      using conn_inv_ws [OF inv h] .
    have "readyState (sockets ?s ! k) = CLOSED" if "k < length (sockets ?s)" for k
      using that h conn_inv_live [OF inv, of k] by (auto simp: nth_update_if)
    then have "live_sockets ?s = []"
      by (rule all_closed_live_sockets)
    with st no_timer show ?thesis
      by (simp add: RECONNECT_DELAY_def)
  qed
  with conn_inv_one [OF inv] show ?thesis
    by blast
qed

lemma length_sockets_ws_onerror [simp]: "length (sockets (ws_onerror s)) = length (sockets s)"
  by (simp add: sockets_ws_onerror split: option.split)

lemma length_sockets_onUnmounted [simp]: "length (sockets (onUnmounted s)) = length (sockets s)"
  by (simp add: onUnmounted_changes sockets_close_connection split: option.split)

lemma handle_Unmounted:
  assumes inv: "conn_inv s" and u: "phase s = Unmounted"
  shows "case handle e s of None \<Rightarrow> True
         | Some s' \<Rightarrow> phase s' = Unmounted \<and> length (sockets s') = length (sockets s)"
proof (cases e)
  case (Timeout i)
  have "timers s = []"
    using conn_inv_timers [OF inv] u by auto
  with Timeout show ?thesis
    by simp
qed (use u in \<open>simp_all split: option.split\<close>)

lemma step_Unmounted:
  assumes inv: "conn_inv s" and u: "phase s = Unmounted" and st: "step s te = Some s'"
  shows "phase s' = Unmounted \<and> length (sockets s') = length (sockets s)"
proof -
  obtain t e where te: "te = (t, e)"
    by (cases te)
  let ?s = "s\<lparr>clock := t\<rparr>"
  from st te have h: "handle e ?s = Some s'"
    by (simp add: step_def split: if_splits)
  have "conn_inv ?s" "phase ?s = Unmounted"
    using inv u by (simp_all add: conn_inv_clock)
  from handle_Unmounted [OF this, of e] h show ?thesis
    by simp
qed

lemma run_Unmounted:
  assumes "conn_inv s" and "phase s = Unmounted" and "run s tes = Some s'"
  shows "conn_inv s' \<and> phase s' = Unmounted \<and> length (sockets s') = length (sockets s)"
proof -
  let ?P = "\<lambda>x. conn_inv x \<and> phase x = Unmounted \<and> length (sockets x) = length (sockets s)"
  have "?P s'"
  proof (rule run_invariant [where P = ?P, OF _ _ assms(3)])
    show "?P s"
      using assms by simp
    show "?P b" if "?P a" "step a te = Some b" for a te b
      using that step_Unmounted [of a te b] conn_inv_step [of a te b] by simp
  qed
  then show ?thesis .
qed


lemma run_snoc:
  assumes "run s (tes @ [te]) = Some s'"
  shows "\<exists>s0. run s tes = Some s0 \<and> step s0 te = Some s'"
  using assms by (cases "run s tes"; cases "step (the (run s tes)) te") (simp_all add: run_append)

theorem one_connection_one_timer_witness:
  "\<exists>s s'. run init [(0, Mount), (10, SocketOpen 0)] = Some s \<and>
     length (live_sockets s) + length (timers s) \<le> 1 \<and>
     step s (20, SocketClose 0) = Some s' \<and> ws s' = None \<and> live_sockets s' = [] \<and>
     timers s' = [(1, 3020)] \<and> reconnectTimer s' = Some 1"
proof -
  let ?tes = "[(0, Mount), (10, SocketOpen 0)]"
  have "run init ?tes \<noteq> None"
    by code_simp
  then obtain s where r: "run init ?tes = Some s"
    by auto
  have "map_option ws (run init ?tes) = Some (Some 0)"
    "map_option ws_is_open (run init ?tes) = Some True"
    "map_option clock (run init ?tes) = Some 10"
    "map_option next_timer (run init ?tes) = Some 1"
    by code_simp+
  with r have f: "ws s = Some 0" "ws_is_open s" "clock s \<le> 20" "next_timer s = 1"
    by simp_all
  from one_connection_one_timer [OF r] f r show ?thesis
    by auto
qed

text \<open>
  C6: after the unmount hook has run, whatever was pending before, no timer is pending
  and none can fire, no socket is ever created again, and a socket that is not yet closed
  has lost its close handler, so its close schedules nothing.
\<close>

theorem no_reconnect_after_unmount:
  assumes "run init (tes1 @ [(t, Unmount)]) = Some s1" and "run s1 tes2 = Some s2"
  shows "timers s1 = [] \<and> timers s2 = [] \<and> length (sockets s2) = length (sockets s1) \<and>
         (\<forall>i t'. step s2 (t', Timeout i) = None) \<and>
         (\<forall>h<length (sockets s2).
            readyState (sockets s2 ! h) = CLOSED \<or> \<not> onclose (sockets s2 ! h))"
proof -
  from run_snoc [OF assms(1)] obtain s0 where
    st: "step s0 (t, Unmount) = Some s1"
    by blast
  then have u1: "phase s1 = Unmounted"
    by (auto simp: step_def onUnmounted_changes split: if_splits)
  from reachable_inv [OF assms(1)] have inv1: "conn_inv s1"
    by simp
  from run_Unmounted [OF inv1 u1 assms(2)] have inv2: "conn_inv s2"
    and u2: "phase s2 = Unmounted" and len: "length (sockets s2) = length (sockets s1)"
    by simp_all
  have t1: "timers s1 = []"
    using conn_inv_timers [OF inv1] u1 by auto
  have t2: "timers s2 = []"
    using conn_inv_timers [OF inv2] u2 by auto
  have "step s2 (t', Timeout i) = None" for i t'
    using t2 by (simp add: step_def)
  moreover have "readyState (sockets s2 ! h) = CLOSED \<or> \<not> onclose (sockets s2 ! h)"
    if "h < length (sockets s2)" for h
    using conn_inv_Unmounted [OF inv2 u2 that] by blast
  ultimately show ?thesis
    using t1 t2 len by blast
qed

theorem no_reconnect_after_unmount_witness:
  "map_option timers (run init [(0, Mount), (10, SocketClose 0)]) = Some [(1, 3010)] \<and>
   map_option timers (run init [(0, Mount), (10, SocketClose 0), (20, Unmount)]) = Some [] \<and>
   map_option timers
     (run init [(0, Mount), (10, SocketClose 0), (20, Unmount), (30, SocketError 0)]) = Some [] \<and>
   map_option (\<lambda>s. length (sockets s))
     (run init [(0, Mount), (10, SocketClose 0), (20, Unmount), (30, SocketError 0)]) = Some 1"
proof -
  let ?tes1 = "[(0, Mount), (10, SocketClose 0)]"
  let ?tes2 = "[(30, SocketError 0)]"
  have pending: "map_option timers (run init ?tes1) = Some [(1, 3010)]"
    by code_simp
  have "run init (?tes1 @ [(20, Unmount)]) \<noteq> None"
    by code_simp
  then obtain s1 where r1: "run init (?tes1 @ [(20, Unmount)]) = Some s1"
    by auto
  have full: "run init ((?tes1 @ [(20, Unmount)]) @ ?tes2) \<noteq> None"
    by code_simp
  have "run init ((?tes1 @ [(20, Unmount)]) @ ?tes2) =
          (case run init (?tes1 @ [(20, Unmount)]) of None \<Rightarrow> None | Some s \<Rightarrow> run s ?tes2)"
    by (rule run_append)
  also have "\<dots> = run s1 ?tes2"
    by (simp only: r1 option.case)
  finally have eq: "run init ((?tes1 @ [(20, Unmount)]) @ ?tes2) = run s1 ?tes2" .
  have "\<exists>s2. run s1 ?tes2 = Some s2"
    using full unfolding eq by (simp only: not_None_eq)
  then obtain s2 where r2: "run s1 ?tes2 = Some s2"
    by blast
  have r12: "run init ((?tes1 @ [(20, Unmount)]) @ ?tes2) = Some s2"
    using eq r2 by (simp only:)
  have len1: "map_option (\<lambda>s. length (sockets s)) (run init (?tes1 @ [(20, Unmount)])) = Some 1"
    by code_simp
  from no_reconnect_after_unmount [OF r1 r2] r1 r12 len1 pending show ?thesis
    by simp
qed

section \<open>Rate limit\<close>

lemma SEND_INTERVAL_pos: "0 < SEND_INTERVAL"
  by (simp add: SEND_INTERVAL_def)

lemma spaced_tail: "spaced (a # xs) \<Longrightarrow> spaced xs"
  by (cases xs) simp_all

lemma spaced_hd:
  "spaced (a # xs) \<Longrightarrow> x \<in> set xs \<Longrightarrow> SEND_INTERVAL < a - x"
proof (induction xs arbitrary: a)
  case Nil
  then show ?case by simp
next
  case (Cons b r)
  from Cons.prems(1) have ab: "SEND_INTERVAL < a - b" and sp: "spaced (b # r)"
    by simp_all
  show ?case
  proof (cases "x = b")
    case True
    with ab show ?thesis by simp
  next
    case False
    with Cons.prems(2) have "x \<in> set r"
      by simp
    from Cons.IH [OF sp this] ab SEND_INTERVAL_pos show ?thesis
      by simp
  qed
qed

lemma spaced_pairwise:
  "spaced xs \<Longrightarrow> i < j \<Longrightarrow> j < length xs \<Longrightarrow> SEND_INTERVAL < xs ! i - xs ! j"
proof (induction xs arbitrary: i j)
  case Nil
  then show ?case by simp
next
  case (Cons a r)
  from Cons.prems(2) obtain j' where j: "j = Suc j'"
    by (cases j) simp_all
  show ?case
  proof (cases i)
    case 0
    from Cons.prems(3) j have "r ! j' \<in> set r"
      by simp
    from spaced_hd [OF Cons.prems(1) this] 0 j show ?thesis
      by simp
  next
    case (Suc i')
    from Cons.IH [OF spaced_tail [OF Cons.prems(1)], of i' j'] Cons.prems(2,3) j Suc
    show ?thesis
      by simp
  qed
qed

lemma gameLoop_send_times:
  "send_times (gameLoop l pad now s) =
     (if ws_is_open s \<and> SEND_INTERVAL < now - lastSentTime s
      then now # send_times s else send_times s)"
  by (simp add: send_times_def gameLoop_sent)

lemma gameLoop_spaced:
  assumes inv: "send_inv s"
  shows "spaced (send_times (gameLoop l pad now s) @ [0])"
  using send_inv_hd [OF inv] send_inv_spaced [OF inv]
  by (simp add: gameLoop_send_times spaced_Cons)

text \<open>
  C3, as the code has it: in every reachable state a tick sends if and only if the
  socket in \<open>ws\<close> is open and strictly more than \<open>SEND_INTERVAL\<close> = 50 ms have passed since
  \<open>lastSentTime\<close> (at exactly 50 ms it does not send).  A send carries the command fused
  on that very tick, from the keys and the gamepad as sampled then, and sets
  \<open>lastSentTime\<close> to the current time; any two messages ever sent are more than 50 ms
  apart.
\<close>

theorem send_iff_open_and_interval_exceeded:
  assumes "run init tes = Some s"
  shows "(sent (gameLoop l pad now s) \<noteq> sent s) =
           (ws_is_open s \<and> SEND_INTERVAL < now - lastSentTime s) \<and>
         sent (gameLoop l pad now s) =
           (if ws_is_open s \<and> SEND_INTERVAL < now - lastSentTime s
            then (the (ws s), now, JSON_stringify (make_controlData (fuse (keyState s) pad))) #
                   sent s
            else sent s) \<and>
         lastSentTime (gameLoop l pad now s) =
           (if ws_is_open s \<and> SEND_INTERVAL < now - lastSentTime s then now
            else lastSentTime s) \<and>
         (\<forall>i j. i < j \<and> j < length (sent (gameLoop l pad now s)) \<longrightarrow>
            SEND_INTERVAL <
              send_times (gameLoop l pad now s) ! i - send_times (gameLoop l pad now s) ! j) \<and>
         SEND_INTERVAL = 50"
proof -
  let ?s = "gameLoop l pad now s"
  from reachable_inv [OF assms] have inv: "send_inv s"
    by simp
  have "SEND_INTERVAL < send_times ?s ! i - send_times ?s ! j"
    if "i < j" "j < length (sent ?s)" for i j
  proof -
    from that have j: "j < length (send_times ?s)"
      by (simp add: send_times_def)
    with that have "SEND_INTERVAL < (send_times ?s @ [0]) ! i - (send_times ?s @ [0]) ! j"
      by (intro spaced_pairwise [OF gameLoop_spaced [OF inv]]) simp_all
    with that j show ?thesis
      by (simp add: nth_append)
  qed
  then show ?thesis
    by (simp add: gameLoop_sent gameLoop_lastSentTime SEND_INTERVAL_def)
qed

theorem send_iff_open_and_interval_exceeded_witness:
  "\<exists>s. run init [(0, Mount), (10, SocketOpen 0), (100, AnimationFrame 1 None)] = Some s \<and>
     ws_is_open s \<and> lastSentTime s = 100 \<and>
     sent (gameLoop 0 None 150 s) = sent s \<and>
     sent (gameLoop 0 None 151 s) \<noteq> sent s \<and>
     lastSentTime (gameLoop 0 None 151 s) = 151 \<and>
     SEND_INTERVAL < send_times (gameLoop 0 None 151 s) ! 0 - send_times (gameLoop 0 None 151 s) ! 1"
proof -
  let ?tes = "[(0, Mount), (10, SocketOpen 0), (100, AnimationFrame 1 None)]"
  have "run init ?tes \<noteq> None"
    by code_simp
  then obtain s where r: "run init ?tes = Some s"
    by auto
  have "map_option ws_is_open (run init ?tes) = Some True"
    "map_option lastSentTime (run init ?tes) = Some 100"
    "map_option send_times (run init ?tes) = Some [100]"
    by code_simp+
  with r have f: "ws_is_open s" "lastSentTime s = 100" "send_times s = [100]"
    by simp_all
  have "length (send_times s) = length (sent s)"
    by (simp add: send_times_def)
  with f have len: "length (sent s) = 1"
    by simp
  note at150 = send_iff_open_and_interval_exceeded [OF r, of 0 None 150]
  note at151 = send_iff_open_and_interval_exceeded [OF r, of 0 None 151]
  from at150 [THEN conjunct1] f have a: "sent (gameLoop 0 None 150 s) = sent s"
    by (simp add: SEND_INTERVAL_def)
  from at151 [THEN conjunct1] f have b: "sent (gameLoop 0 None 151 s) \<noteq> sent s"
    by (simp add: SEND_INTERVAL_def)
  from at151 [THEN conjunct2, THEN conjunct2, THEN conjunct1] f
  have c: "lastSentTime (gameLoop 0 None 151 s) = 151"
    by (simp add: SEND_INTERVAL_def)
  from at151 [THEN conjunct2, THEN conjunct1] f len
  have "length (sent (gameLoop 0 None 151 s)) = 2"
    by (simp add: SEND_INTERVAL_def)
  with at151 [THEN conjunct2, THEN conjunct2, THEN conjunct2, THEN conjunct1]
  have d: "SEND_INTERVAL <
      send_times (gameLoop 0 None 151 s) ! 0 - send_times (gameLoop 0 None 151 s) ! 1"
    by simp
  from r f a b c d show ?thesis
    by blast
qed

text \<open>
  With the connection open and the last send at 100 ms, the tick at 150 ms, exactly
  \<open>SEND_INTERVAL\<close> later, sends nothing.
\<close>

theorem no_send_at_exactly_SEND_INTERVAL:
  "map_option ws_is_open
     (run init [(0, Mount), (10, SocketOpen 0), (100, AnimationFrame 1 None)]) = Some True \<and>
   map_option lastSentTime
     (run init [(0, Mount), (10, SocketOpen 0), (100, AnimationFrame 1 None)]) = Some 100 \<and>
   SEND_INTERVAL \<le> 150 - 100 \<and>
   map_option sent
     (run init [(0, Mount), (10, SocketOpen 0), (100, AnimationFrame 1 None),
        (150, AnimationFrame 2 None)]) =
   map_option sent
     (run init [(0, Mount), (10, SocketOpen 0), (100, AnimationFrame 1 None)]) \<and>
   map_option send_times
     (run init [(0, Mount), (10, SocketOpen 0), (100, AnimationFrame 1 None),
        (150, AnimationFrame 2 None)]) = Some [100]"
  by code_simp

section \<open>Opening a connection\<close>

lemma ws_is_open_keeps [simp]:
  "ws_is_open (s\<lparr>clock := t\<rparr>) = ws_is_open s"
  "ws_is_open (cancelAnimationFrame f s) = ws_is_open s"
  "ws_is_open (gameLoop l pad now s) = ws_is_open s"
  by (rule ws_is_open_cong; simp)+

lemma step_AnimationFrame:
  "case step s (now, AnimationFrame f pad) of
     None \<Rightarrow> True
   | Some s' \<Rightarrow>
       clock s \<le> now \<and>
       sent s' =
         (if ws_is_open s \<and> SEND_INTERVAL < now - lastSentTime s
          then (the (ws s), now, JSON_stringify (make_controlData (fuse (keyState s) pad))) #
                 sent s
          else sent s)"
  by (simp add: step_def gameLoop_sent split: option.split)

lemma step_SocketOpen:
  "case step s (t, SocketOpen h) of
     None \<Rightarrow> True
   | Some s' \<Rightarrow>
       clock s \<le> t \<and> clock s' = t \<and> lastSentTime s' = lastSentTime s \<and> sent s' = sent s \<and>
       ws s' = ws s \<and> h < length (sockets s) \<and> readyState (sockets s ! h) = CONNECTING \<and>
       sockets s' = (sockets s)[h := (sockets s ! h)\<lparr>readyState := OPEN\<rparr>]"
  by (simp add: step_def)

text \<open>
  C5, as the code has it: the open handler only logs; it leaves \<open>lastSentTime\<close> and the
  messages sent as they are.  The tick after an open sends if and only if more than
  \<open>SEND_INTERVAL\<close> has passed since \<open>lastSentTime\<close>.  For the first socket nothing has
  been sent yet and \<open>lastSentTime\<close> is still 0, so that tick sends only after 50 ms of
  page time; for every later socket the last send is at least the reconnect delay of
  3000 ms ago (sends stop at the close and the timer runs that long), so that tick
  always sends.
\<close>

theorem open_resets_nothing:
  assumes "run init tes = Some s" and "step s (t, SocketOpen h) = Some s1"
    and "step s1 (now, AnimationFrame f pad) = Some s2"
  shows "lastSentTime s1 = lastSentTime s \<and> sent s1 = sent s \<and> ws_is_open s1 \<and>
         (sent s2 \<noteq> sent s1) = (SEND_INTERVAL < now - lastSentTime s) \<and>
         (if h = 0 then lastSentTime s = 0
          else RECONNECT_DELAY \<le> now - lastSentTime s \<and> sent s2 \<noteq> sent s1)"
proof -
  from reachable_inv [OF assms(1)] have cinv: "conn_inv s" and sinv: "send_inv s"
    by simp_all
  from step_SocketOpen [where s = s and t = t and h = h] assms(2)
  have t: "clock s \<le> t" "clock s1 = t" and same: "lastSentTime s1 = lastSentTime s" "sent s1 = sent s"
    and ws1: "ws s1 = ws s" and h: "h < length (sockets s)"
    and c: "readyState (sockets s ! h) = CONNECTING"
    and sock: "sockets s1 = (sockets s)[h := (sockets s ! h)\<lparr>readyState := OPEN\<rparr>]"
    by simp_all
  from conn_inv_live [OF cinv h] c have wsh: "ws s = Some h"
    by simp
  have o: "ws_is_open s1"
    using ws1 wsh h sock by (simp add: ws_is_open_iff)
  from step_AnimationFrame [where s = s1 and now = now and f = f and pad = pad] assms(3) o same t
  have now: "t \<le> now" and tick: "(sent s2 \<noteq> sent s1) = (SEND_INTERVAL < now - lastSentTime s)"
    by simp_all
  have "lastSentTime s = 0" if "h = 0"
  proof -
    from that h c have "sent s = []"
      by (intro send_inv_first [OF sinv]) simp
    with send_inv_hd [OF sinv] show ?thesis
      by (simp add: send_times_def)
  qed
  moreover have "RECONNECT_DELAY \<le> now - lastSentTime s \<and> sent s2 \<noteq> sent s1" if "h \<noteq> 0"
  proof -
    from send_inv_connecting [OF sinv wsh _ h c] that
    have "lastSentTime s + RECONNECT_DELAY \<le> clock s"
      by simp
    with t now have "RECONNECT_DELAY \<le> now - lastSentTime s"
      by simp
    with tick show ?thesis
      by (simp add: RECONNECT_DELAY_def SEND_INTERVAL_def)
  qed
  ultimately show ?thesis
    using same o tick by simp
qed

theorem open_resets_nothing_witness:
  "\<exists>s s1 s2.
     run init [(0, Mount), (10, SocketOpen 0), (100, AnimationFrame 1 None),
       (110, SocketClose 0), (3110, Timeout 1)] = Some s \<and>
     step s (3120, SocketOpen 1) = Some s1 \<and>
     step s1 (3130, AnimationFrame 2 None) = Some s2 \<and>
     lastSentTime s = 100 \<and> lastSentTime s1 = 100 \<and> sent s2 \<noteq> sent s1"
proof -
  let ?tes = "[(0, Mount), (10, SocketOpen 0), (100, AnimationFrame 1 None),
       (110, SocketClose 0), (3110, Timeout 1)]"
  have "run init ((?tes @ [(3120, SocketOpen 1)]) @ [(3130, AnimationFrame 2 None)]) \<noteq> None"
    by code_simp
  then obtain s2 where
    "run init ((?tes @ [(3120, SocketOpen 1)]) @ [(3130, AnimationFrame 2 None)]) = Some s2"
    by blast
  from run_snoc [OF this] obtain s1 where
    r1: "run init (?tes @ [(3120, SocketOpen 1)]) = Some s1"
    and st2: "step s1 (3130, AnimationFrame 2 None) = Some s2"
    by blast
  from run_snoc [OF r1] obtain s where
    r: "run init ?tes = Some s" and st1: "step s (3120, SocketOpen 1) = Some s1"
    by blast
  have "map_option lastSentTime (run init ?tes) = Some 100"
    by code_simp
  with r have l: "lastSentTime s = 100"
    by simp
  from open_resets_nothing [OF r st1 st2] l r st1 st2 show ?thesis
    by auto
qed

text \<open>
  The first socket opens at 10 ms; the tick at 30 ms finds it open and sends nothing,
  and the open has left \<open>lastSentTime\<close> as it was.
\<close>

theorem first_open_no_immediate_send:
  "map_option ws_is_open (run init [(0, Mount), (10, SocketOpen 0)]) = Some True \<and>
   map_option lastSentTime (run init [(0, Mount), (10, SocketOpen 0)]) =
     map_option lastSentTime (run init [(0, Mount)]) \<and>
   map_option sent
     (run init [(0, Mount), (10, SocketOpen 0), (30, AnimationFrame 1 None)]) = Some []"
  by code_simp

section \<open>Ticks without a connection\<close>

lemma gameLoop_not_open:
  "\<not> ws_is_open s \<Longrightarrow> gameLoop l pad now s = requestAnimationFrame l (report_unconnected l s)"
  by (simp add: gameLoop_def)

lemma ws_is_open_keyState [simp]: "ws_is_open (s\<lparr>keyState := k\<rparr>) = ws_is_open s"
  by (rule ws_is_open_cong) simp_all

lemma ws_state_keyState [simp]: "ws_state (s\<lparr>keyState := k\<rparr>) = ws_state s"
  by (rule ws_state_cong) simp_all

lemma report_unconnected_keyState:
  "report_unconnected l (s\<lparr>keyState := k\<rparr>) = (report_unconnected l s)\<lparr>keyState := k\<rparr>"
proof -
  let ?u = "\<lambda>x. x\<lparr>logCounter := (logCounter s)[l := logCounter s ! l + 1]\<rparr>"
  have o: "ws_is_open (?u (s\<lparr>keyState := k\<rparr>)) = ws_is_open (?u s)"
    by (rule ws_is_open_cong) simp_all
  have st: "ws_state (?u (s\<lparr>keyState := k\<rparr>)) = ws_state (?u s)"
    by (rule ws_state_cong) simp_all
  show ?thesis
    using o st by (simp add: report_unconnected_def Let_def)
qed

lemma requestAnimationFrame_keyState:
  "requestAnimationFrame l (s\<lparr>keyState := k\<rparr>) = (requestAnimationFrame l s)\<lparr>keyState := k\<rparr>"
  by (simp add: requestAnimationFrame_def)

lemma div60_step:
  "(if Suc c mod 60 = 0 then 1 else 0) + ((Suc c + n) div 60 - Suc c div 60) =
   (c + Suc n) div 60 - c div (60::nat)"
proof -
  have "Suc c div 60 \<le> (Suc c + n) div 60"
    by (rule div_le_mono) simp
  then show ?thesis
    by (simp add: div_Suc)
qed

lemma div60_bound: "(c + n) div 60 - c div 60 \<le> n div 60 + (1::nat)"
proof -
  have "c mod 60 < 60" "n mod 60 < 60"
    by simp_all
  then have "c mod 60 + n mod 60 \<le> 119"
    by linarith
  from div_le_mono [OF this, of 60] have "(c mod 60 + n mod 60) div 60 \<le> 1"
    by simp
  moreover have "(c + n) div 60 = c div 60 + n div 60 + (c mod 60 + n mod 60) div 60"
    by (rule div_add1_eq)
  ultimately show ?thesis
    by linarith
qed

lemma ticks_not_open:
  assumes "\<not> ws_is_open s" and "l < length (logCounter s)"
  shows "\<not> ws_is_open (ticks l ps s) \<and> sent (ticks l ps s) = sent s \<and>
         lastSentTime (ticks l ps s) = lastSentTime s \<and>
         length (console (ticks l ps s)) =
           length (console s) + ((logCounter s ! l + length ps) div 60 - logCounter s ! l div 60)"
  using assms
proof (induction ps arbitrary: s)
  case Nil
  then show ?case by simp
next
  case (Cons p ps)
  let ?s = "gameLoop l (fst p) (snd p) s"
  let ?c = "logCounter s ! l"
  have o: "\<not> ws_is_open ?s"
    using Cons.prems(1) by simp
  have c: "logCounter ?s ! l = Suc ?c" and len: "l < length (logCounter ?s)"
    using Cons.prems by (simp_all add: gameLoop_logCounter)
  have con: "length (console ?s) = length (console s) + (if Suc ?c mod 60 = 0 then 1 else 0)"
    using Cons.prems(1) by (simp add: gameLoop_console)
  have same: "sent ?s = sent s" "lastSentTime ?s = lastSentTime s"
    using Cons.prems(1) by (simp_all add: gameLoop_sent gameLoop_lastSentTime)
  from Cons.IH [OF o len] c same
  have ih: "\<not> ws_is_open (ticks l (p # ps) s)" "sent (ticks l (p # ps) s) = sent s"
    "lastSentTime (ticks l (p # ps) s) = lastSentTime s"
    "length (console (ticks l (p # ps) s)) =
       length (console ?s) + ((Suc ?c + length ps) div 60 - Suc ?c div 60)"
    by simp_all
  have "length (console (ticks l (p # ps) s)) =
       length (console ?s) + ((Suc ?c + length ps) div 60 - Suc ?c div 60)"
    by (rule ih)
  also have "\<dots> = length (console s) +
       ((if Suc ?c mod 60 = 0 then 1 else 0) + ((Suc ?c + length ps) div 60 - Suc ?c div 60))"
    by (simp only: con add.assoc)
  also have "\<dots> = length (console s) + ((?c + Suc (length ps)) div 60 - ?c div 60)"
    by (simp only: div60_step)
  finally have "length (console (ticks l (p # ps) s)) =
       length (console s) + ((?c + length (p # ps)) div 60 - ?c div 60)"
    by simp
  with ih show ?case
    by blast
qed

text \<open>
  C4: on a tick that finds no open socket nothing is sent and \<open>lastSentTime\<close> stays; the
  resulting state does not depend on the gamepad sample, the time or the keys, so the
  command is not kept anywhere; the closure's counter goes up by one and the warning is
  logged exactly when the new count is a multiple of 60.  Over any number of such ticks
  of one closure the warnings number one per 60 ticks.
\<close>

theorem no_send_while_not_open:
  assumes "\<not> ws_is_open s" and "l < length (logCounter s)"
  shows "sent (gameLoop l pad now s) = sent s \<and>
         lastSentTime (gameLoop l pad now s) = lastSentTime s \<and>
         gameLoop l pad now s = gameLoop l pad' now' s \<and>
         gameLoop l pad now (s\<lparr>keyState := k\<rparr>) = (gameLoop l pad now s)\<lparr>keyState := k\<rparr> \<and>
         console (gameLoop l pad now s) =
           (if Suc (logCounter s ! l) mod 60 = 0
            then Warn_not_connected (ws_state s) # console s else console s) \<and>
         logCounter (gameLoop l pad now s) ! l = Suc (logCounter s ! l) \<and>
         sent (ticks l ps s) = sent s \<and>
         length (console (ticks l ps s)) =
           length (console s) + ((logCounter s ! l + length ps) div 60 - logCounter s ! l div 60) \<and>
         length (console (ticks l ps s)) \<le> length (console s) + (length ps div 60 + 1)"
proof -
  have a: "sent (gameLoop l pad now s) = sent s"
    "lastSentTime (gameLoop l pad now s) = lastSentTime s"
    using assms(1) by (simp_all add: gameLoop_sent gameLoop_lastSentTime)
  have b: "gameLoop l pad now s = gameLoop l pad' now' s"
    using assms(1) by (simp add: gameLoop_not_open)
  have c: "gameLoop l pad now (s\<lparr>keyState := k\<rparr>) = (gameLoop l pad now s)\<lparr>keyState := k\<rparr>"
    using assms(1)
    by (simp add: gameLoop_not_open report_unconnected_keyState requestAnimationFrame_keyState)
  have d: "console (gameLoop l pad now s) =
           (if Suc (logCounter s ! l) mod 60 = 0
            then Warn_not_connected (ws_state s) # console s else console s)"
    using assms(1) by (simp add: gameLoop_console)
  have e: "logCounter (gameLoop l pad now s) ! l = Suc (logCounter s ! l)"
    using assms by (simp add: gameLoop_logCounter)
  note t = ticks_not_open [OF assms, of ps]
  have f: "length (console (ticks l ps s)) \<le> length (console s) + (length ps div 60 + 1)"
    using t div60_bound [of "logCounter s ! l" "length ps"] by simp
  from a b c d e t f show ?thesis
    by blast
qed

theorem no_send_while_not_open_witness:
  "\<exists>s. run init [(0, Mount)] = Some s \<and> \<not> ws_is_open s \<and>
     sent (gameLoop 0 None 100 s) = sent s \<and>
     console (gameLoop 0 None 100 s) = console s \<and>
     sent (ticks 0 (replicate 120 (None, 1000)) s) = [] \<and>
     length (console (ticks 0 (replicate 120 (None, 1000)) s)) = 2"
proof -
  have "run init [(0, Mount)] \<noteq> None"
    by code_simp
  then obtain s where r: "run init [(0, Mount)] = Some s"
    by blast
  have "map_option ws_is_open (run init [(0, Mount)]) = Some False"
    "map_option logCounter (run init [(0, Mount)]) = Some [0]"
    "map_option sent (run init [(0, Mount)]) = Some []"
    "map_option console (run init [(0, Mount)]) = Some []"
    by code_simp+
  with r have f: "\<not> ws_is_open s" "logCounter s = [0]" "sent s = []" "console s = []"
    by simp_all
  then have l: "0 < length (logCounter s)"
    by simp
  define ps :: "(gamepad option \<times> real) list" where "ps = replicate 120 (None, 1000)"
  have lp: "length ps = 120"
    by (simp add: ps_def)
  note w = no_send_while_not_open [OF f(1) l, of None 100 None 100 "keyState s" ps]
  from w have "sent (gameLoop 0 None 100 s) = sent s"
    by blast
  moreover from w f have "console (gameLoop 0 None 100 s) = console s"
    by simp
  moreover from w f have "sent (ticks 0 ps s) = []"
    by simp
  moreover from w f lp have "length (console (ticks 0 ps s)) = 2"
    by simp
  ultimately show ?thesis
    using r f(1) unfolding ps_def by blast
qed

section \<open>Unmounting and the polling loop\<close>

lemma one_loop_init: "one_loop init"
  by (simp add: one_loop_def init_def)

lemma startGamepadPolling_changes [simp]:
  "logCounter (startGamepadPolling s) = logCounter s @ [0]"
  "frames (startGamepadPolling s) = frames s @ [(next_frame s, length (logCounter s))]"
  "animationFrameId (startGamepadPolling s) = Some (next_frame s)"
  "next_frame (startGamepadPolling s) = Suc (next_frame s)"
  by (simp_all add: startGamepadPolling_def)

lemma onMounted_loop [simp]:
  "logCounter (onMounted s) = logCounter s @ [0]"
  "frames (onMounted s) = frames s @ [(next_frame s, length (logCounter s))]"
  "animationFrameId (onMounted s) = Some (next_frame s)"
  "next_frame (onMounted s) = Suc (next_frame s)"
  by (simp_all add: onMounted_def)

lemma frames_stop_polling:
  "frames (stop_polling s) =
     (case animationFrameId s of
        None \<Rightarrow> frames s
      | Some f \<Rightarrow> if f \<noteq> 0 then filter (\<lambda>p. fst p \<noteq> f) (frames s) else frames s)"
  by (simp add: stop_polling_def split: option.split)

lemma one_loop_handle:
  assumes "one_loop s" and "e \<noteq> GamepadConnected"
  shows "case handle e s of None \<Rightarrow> True | Some s' \<Rightarrow> one_loop s'"
proof (cases e)
  case Mount
  with assms show ?thesis
    by (simp add: one_loop_def split: phase.splits)
next
  case Unmount
  with assms show ?thesis
    by (simp add: one_loop_def onUnmounted_changes frames_stop_polling split: phase.splits)
next
  case (AnimationFrame f pad)
  with assms show ?thesis
    by (cases "phase s")
       (simp_all add: one_loop_def gameLoop_frames gameLoop_logCounter split: option.split if_splits)
next
  case (Timeout i)
  with assms show ?thesis
    by (cases "phase s") (simp_all add: one_loop_def split: option.split)
qed (use assms in \<open>(cases "phase s"; simp add: one_loop_def)+\<close>)

lemma run_invariant_on:
  assumes pres: "\<And>s te s'. P s \<Longrightarrow> Q te \<Longrightarrow> step s te = Some s' \<Longrightarrow> P s'"
    and "P s" and "\<forall>te \<in> set tes. Q te" and "run s tes = Some s'"
  shows "P s'"
  using assms(2-4)
proof (induction tes arbitrary: s)
  case Nil
  then show ?case by simp
next
  case (Cons te tes)
  from Cons.prems(3) obtain s1 where st: "step s te = Some s1" and r: "run s1 tes = Some s'"
    by (cases "step s te") simp_all
  from Cons.prems(2) have q: "Q te" and qs: "\<forall>te \<in> set tes. Q te"
    by simp_all
  from pres [OF Cons.prems(1) q st] have "P s1" .
  from Cons.IH [OF this qs r] show ?case .
qed

lemma one_loop_clock: "one_loop (s\<lparr>clock := t\<rparr>) = one_loop s"
  by (cases "phase s") (simp_all add: one_loop_def)

lemma one_loop_step:
  assumes "one_loop s" and "snd te \<noteq> GamepadConnected" and "step s te = Some s'"
  shows "one_loop s'"
proof -
  obtain t e where te: "te = (t, e)"
    by (cases te)
  with assms(3) have h: "handle e (s\<lparr>clock := t\<rparr>) = Some s'"
    by (simp add: step_def split: if_splits)
  from assms(1) have "one_loop (s\<lparr>clock := t\<rparr>)"
    by (simp add: one_loop_clock)
  from one_loop_handle [OF this, of e] assms(2) te h show ?thesis
    by simp
qed

text \<open>
  With a single polling closure, that is in a run without a \<open>gamepadconnected\<close> event,
  unmounting cancels the one pending request and no tick can run afterwards.
\<close>

lemma single_loop_stops_at_unmount:
  assumes "run init tes = Some s" and "\<forall>te \<in> set tes. snd te \<noteq> GamepadConnected"
    and "phase s = Unmounted"
  shows "frames s = [] \<and> step s (t, AnimationFrame f pad) = None"
proof -
  have "one_loop s"
    by (rule run_invariant_on [where P = one_loop and Q = "\<lambda>te. snd te \<noteq> GamepadConnected",
          OF one_loop_step one_loop_init assms(2) assms(1)])
  with assms(3) have "frames s = []"
    by (simp add: one_loop_def)
  then show ?thesis
    by (simp add: step_def)
qed

text \<open>
  C7 at the failing input: mount, then a \<open>gamepadconnected\<close> event, then unmount.  The
  event starts a second \<open>gameLoop\<close> closure; \<open>animationFrameId\<close> holds only the request
  made last (2), so unmounting cancels that one and the request 1 of the first closure
  stays pending.  It runs after the unmount and requests the next frame, and so on.
\<close>

theorem second_loop_survives_unmount:
  "map_option frames (run init [(0, Mount), (5, GamepadConnected)]) = Some [(1, 0), (2, 1)] \<and>
   map_option animationFrameId (run init [(0, Mount), (5, GamepadConnected)]) = Some (Some 2) \<and>
   map_option frames (run init [(0, Mount), (5, GamepadConnected), (10, Unmount)]) =
     Some [(1, 0)] \<and>
   map_option phase (run init [(0, Mount), (5, GamepadConnected), (10, Unmount)]) =
     Some Unmounted \<and>
   map_option frames
     (run init [(0, Mount), (5, GamepadConnected), (10, Unmount), (20, AnimationFrame 1 None)]) =
     Some [(3, 0)] \<and>
   map_option logCounter
     (run init [(0, Mount), (5, GamepadConnected), (10, Unmount), (20, AnimationFrame 1 None)]) =
     Some [1, 0] \<and>
   map_option frames
     (run init [(0, Mount), (5, GamepadConnected), (10, Unmount), (20, AnimationFrame 1 None),
        (40, AnimationFrame 3 None)]) = Some [(4, 0)]"
  by code_simp

section \<open>The wire record\<close>

lemma less_10_cases:
  "d < 10 \<Longrightarrow> d = 0 \<or> d = 1 \<or> d = 2 \<or> d = 3 \<or> d = 4 \<or> d = 5 \<or> d = 6 \<or> d = 7 \<or> d = 8 \<or> d = (9::nat)"
  by arith

lemma digit_char_props:
  assumes "d < 10"
  shows "is_digit (digit_char d)" and "digit_value (digit_char d) = d"
  using less_10_cases [OF assms]
  by (auto simp: is_digit_def digit_value_def digit_char_def)

lemma nat_of_digits_snoc:
  "nat_of_digits (ds @ [c]) = 10 * nat_of_digits ds + digit_value c"
  by (simp add: nat_of_digits_def)

lemma digits_props:
  "digits n \<noteq> [] \<and> list_all is_digit (digits n) \<and> nat_of_digits (digits n) = n"
proof (induction n rule: digits.induct)
  case (1 n)
  show ?case
  proof (cases "n < 10")
    case True
    then show ?thesis
      using digit_char_props [of n]
      by (simp add: digits.simps [of n] nat_of_digits_def)
  next
    case False
    have "n mod 10 < 10"
      by simp
    from digit_char_props [OF this] 1 [OF False] False show ?thesis
      by (simp add: digits.simps [of n] nat_of_digits_snoc)
  qed
qed

lemma nat_of_digits_zeros:
  "nat_of_digits (replicate k (CHR ''0'') @ ds) = nat_of_digits ds"
proof -
  have "foldl (\<lambda>a c. 10 * a + digit_value c) 0 (replicate k (CHR ''0'')) = 0"
    by (induction k) (simp_all add: digit_value_def)
  then show ?thesis
    by (simp add: nat_of_digits_def)
qed


lemma toFixed3_form:
  obtains ip fp where
    "toFixed3 x = (if x < 0 then ''-'' else []) @ ip @ ''.'' @ fp"
    "ip \<noteq> []" "length fp = 3" "list_all is_digit (ip @ fp)"
    "nat_of_digits (ip @ fp) = nat \<lfloor>\<bar>x\<bar> * 1000 + 1 / 2\<rfloor>"
proof -
  define n where "n = nat \<lfloor>\<bar>x\<bar> * 1000 + 1 / 2\<rfloor>"
  define m where
    "m = (if length (digits n) \<le> 3
          then replicate (3 + 1 - length (digits n)) (CHR ''0'') @ digits n else digits n)"
  have ax: "(if x < 0 then - x else x) = \<bar>x\<bar>"
    by simp
  have k: "4 \<le> length m"
    by (simp add: m_def)
  have dig: "list_all is_digit m"
    using digits_props [of n] by (simp add: m_def list_all_iff is_digit_def)
  have val: "nat_of_digits m = n"
    using digits_props [of n] by (simp add: m_def nat_of_digits_zeros)
  have form: "toFixed3 x = (if x < 0 then ''-'' else []) @ take (length m - 3) m @ ''.'' @
      drop (length m - 3) m"
    unfolding toFixed3_def Let_def ax n_def [symmetric] m_def [symmetric] ..
  show ?thesis
  proof (rule that [of "take (length m - 3) m" "drop (length m - 3) m"])
    show "toFixed3 x = (if x < 0 then ''-'' else []) @ take (length m - 3) m @ ''.'' @
        drop (length m - 3) m"
      by (rule form)
    show "take (length m - 3) m \<noteq> []"
      using k by (cases m) auto
    show "length (drop (length m - 3) m) = 3"
      using k by simp
    show "list_all is_digit (take (length m - 3) m @ drop (length m - 3) m)"
      using dig by simp
    show "nat_of_digits (take (length m - 3) m @ drop (length m - 3) m) =
        nat \<lfloor>\<bar>x\<bar> * 1000 + 1 / 2\<rfloor>"
      using val by (simp add: n_def)
  qed
qed

lemma fixed3_toFixed3: "fixed3 x (toFixed3 x)"
proof -
  obtain ip fp where f: "toFixed3 x = (if x < 0 then ''-'' else []) @ ip @ ''.'' @ fp"
    and ip: "ip \<noteq> []" and fp: "length fp = 3" and dig: "list_all is_digit (ip @ fp)"
    and val: "nat_of_digits (ip @ fp) = nat \<lfloor>\<bar>x\<bar> * 1000 + 1 / 2\<rfloor>"
    by (rule toFixed3_form)
  have nonneg: "0 \<le> \<lfloor>\<bar>x\<bar> * 1000 + 1 / 2\<rfloor>"
    by simp
  let ?sgn = "if x < 0 then ''-'' else []"
  let ?body = "ip @ ''.'' @ fp"
  have body: "drop (length ?sgn) (toFixed3 x) = ?body" and sgn: "take (length ?sgn) (toFixed3 x) = ?sgn"
    by (simp_all add: f)
  have len: "length ?body = length ip + 4"
    using fp by simp
  have "0 < length ip"
    using ip by simp
  then have "take (length ?body - 4) ?body = ip" "drop (length ?body - 3) ?body = fp"
    "?body ! (length ?body - 4) = CHR ''.''" "5 \<le> length ?body"
    using fp by (simp_all add: nth_append Suc_le_eq)
  with dig val nonneg show ?thesis
    unfolding fixed3_def Let_def body sgn by simp
qed

lemma JSON_quote_plain:
  assumes "CHR 0x22 \<notin> set v" and "CHR 0x5C \<notin> set v"
  shows "JSON_quote v = CHR 0x22 # v @ [CHR 0x22]"
proof -
  have "concat (map JSON_escape v) = v"
    using assms by (induction v) (auto simp: JSON_escape_def)
  then show ?thesis
    by (simp add: JSON_quote_def)
qed

lemma is_digit_plain: "is_digit c \<Longrightarrow> c \<noteq> CHR 0x22 \<and> c \<noteq> CHR 0x5C"
  by (auto simp: is_digit_def)

lemma JSON_quote_toFixed3: "JSON_quote (toFixed3 x) = CHR 0x22 # toFixed3 x @ [CHR 0x22]"
proof -
  obtain ip fp where f: "toFixed3 x = (if x < 0 then ''-'' else []) @ ip @ ''.'' @ fp"
    and dig: "list_all is_digit (ip @ fp)"
    by (rule toFixed3_form)
  from dig have "CHR 0x22 \<notin> set (ip @ fp)" "CHR 0x5C \<notin> set (ip @ fp)"
    using is_digit_plain by (auto simp: list_all_iff)
  then show ?thesis
    by (intro JSON_quote_plain) (auto simp: f)
qed

lemma JSON_stringify_make_controlData:
  \<open>JSON_stringify (make_controlData c) =
     ''{"type":"control","left_x":"'' @ toFixed3 (lx c) @
     ''","left_y":"'' @ toFixed3 (ly c) @
     ''","cross_b":'' @ (if cross c then ''true'' else ''false'') @
     '',"circle_b":'' @ (if circle c then ''true'' else ''false'') @ ''}''\<close>
proof -
  have "JSON_quote ''control'' = CHR 0x22 # ''control'' @ [CHR 0x22]"
    by (simp add: JSON_quote_def JSON_escape_def)
  then show ?thesis
    by (simp add: JSON_stringify_def make_controlData_def JSON_quote_toFixed3 JSON_bool_def)
qed


text \<open>
  Only a tick sends: an event leaves the messages as they are, or it is a tick with the
  socket \<open>ws\<close> and puts one message in front, stamped with the time of the tick and
  encoding the command fused from the keys held at that tick and the gamepad it read.
\<close>

lemma handle_sent:
  "case handle e s of
     None \<Rightarrow> True
   | Some s' \<Rightarrow>
       sent s' = sent s \<or>
       (\<exists>f pad h. e = AnimationFrame f pad \<and> ws s = Some h \<and>
          sent s' =
            (h, clock s, JSON_stringify (make_controlData (fuse (keyState s) pad))) # sent s)"
proof (cases e)
  case (AnimationFrame f pad)
  then show ?thesis
    by (auto simp: gameLoop_sent ws_is_open_def split: option.split)
qed (simp_all split: option.split)

lemma step_sent:
  assumes "step s (t, e) = Some s'"
  shows "sent s' = sent s \<or>
         (\<exists>f pad h. e = AnimationFrame f pad \<and> ws s = Some h \<and>
            sent s' =
              (h, t, JSON_stringify (make_controlData (fuse (keyState s) pad))) # sent s)"
proof -
  from assms have "handle e (s\<lparr>clock := t\<rparr>) = Some s'"
    by (simp add: step_def split: if_splits)
  with handle_sent [where e = e and s = "s\<lparr>clock := t\<rparr>"] show ?thesis
    by simp
qed

lemma sent_by_tick:
  assumes "run init tes = Some s" and "(h, t, p) \<in> set (sent s)"
  shows "\<exists>tes1 f pad tes2 s1.
     tes = tes1 @ (t, AnimationFrame f pad) # tes2 \<and> run init tes1 = Some s1 \<and>
     ws s1 = Some h \<and> p = JSON_stringify (make_controlData (fuse (keyState s1) pad))"
  using assms
proof (induction tes arbitrary: s rule: rev_induct)
  case Nil
  then have "s = init"
    by simp
  with Nil.prems(2) show ?case
    by (simp add: init_def)
next
  case (snoc te tes)
  from run_snoc [OF snoc.prems(1)] obtain s0 where
    r0: "run init tes = Some s0" and st: "step s0 te = Some s"
    by blast
  obtain t' e where te: "te = (t', e)"
    by (cases te)
  from step_sent [OF st [unfolded te]] consider "sent s = sent s0"
    | f pad h' where "e = AnimationFrame f pad" "ws s0 = Some h'"
        "sent s = (h', t', JSON_stringify (make_controlData (fuse (keyState s0) pad))) # sent s0"
    by blast
  then have "(h, t, p) \<in> set (sent s0) \<or>
      (\<exists>f pad. e = AnimationFrame f pad \<and> ws s0 = Some h \<and> t = t' \<and>
         p = JSON_stringify (make_controlData (fuse (keyState s0) pad)))"
  proof cases
    case 1
    with snoc.prems(2) show ?thesis
      by simp
  next
    case 2
    with snoc.prems(2) show ?thesis
      by auto
  qed
  then show ?case
  proof
    assume "(h, t, p) \<in> set (sent s0)"
    from snoc.IH [OF r0 this] obtain tes1 f pad tes2 s1 where
      "tes = tes1 @ (t, AnimationFrame f pad) # tes2" "run init tes1 = Some s1"
      "ws s1 = Some h" "p = JSON_stringify (make_controlData (fuse (keyState s1) pad))"
      by blast
    then have "tes @ [te] = tes1 @ (t, AnimationFrame f pad) # (tes2 @ [te])"
      by simp
    with \<open>run init tes1 = Some s1\<close> \<open>ws s1 = Some h\<close>
      \<open>p = JSON_stringify (make_controlData (fuse (keyState s1) pad))\<close>
    show ?thesis
      by blast
  next
    assume "\<exists>f pad. e = AnimationFrame f pad \<and> ws s0 = Some h \<and> t = t' \<and>
      p = JSON_stringify (make_controlData (fuse (keyState s0) pad))"
    then obtain f pad where e: "e = AnimationFrame f pad" and h: "ws s0 = Some h"
      and t: "t = t'" and p: "p = JSON_stringify (make_controlData (fuse (keyState s0) pad))"
      by blast
    have "tes @ [te] = tes @ (t, AnimationFrame f pad) # []"
      by (simp add: te e t)
    with r0 h p show ?thesis
      by blast
  qed
qed

text \<open>
  C9: every message ever sent was sent by a tick of the run, at the time of that tick
  and on the socket \<open>ws\<close> then referred to, and it is the JSON text of the object with
  the fields \<open>type\<close> (the string \<open>control\<close>), \<open>left_x\<close>, \<open>left_y\<close>, \<open>cross_b\<close> and \<open>circle_b\<close>,
  in that order, for the command \<open>c\<close> which that tick fused from the keys held when it ran
  and the gamepad it read: \<open>left_x\<close> and \<open>left_y\<close> are the axes of \<open>c\<close> rendered by
  \<open>toFixed(3)\<close>, strings with exactly three fractional digits whose value is the axis
  rounded to the nearest thousandth, and the two booleans are the triggers of \<open>c\<close>.
\<close>

theorem sent_records_are_control_json:
  assumes "run init tes = Some s" and "(h, t, p) \<in> set (sent s)"
  shows \<open>\<exists>tes1 f pad tes2 s1 c.
     tes = tes1 @ (t, AnimationFrame f pad) # tes2 \<and> run init tes1 = Some s1 \<and>
     ws s1 = Some h \<and> c = fuse (keyState s1) pad \<and>
     p = ''{"type":"control","left_x":"'' @ toFixed3 (lx c) @
         ''","left_y":"'' @ toFixed3 (ly c) @
         ''","cross_b":'' @ (if cross c then ''true'' else ''false'') @
         '',"circle_b":'' @ (if circle c then ''true'' else ''false'') @ ''}'' \<and>
     fixed3 (lx c) (toFixed3 (lx c)) \<and> fixed3 (ly c) (toFixed3 (ly c))\<close>
proof -
  from sent_by_tick [OF assms] obtain tes1 f pad tes2 s1 where
    "tes = tes1 @ (t, AnimationFrame f pad) # tes2" "run init tes1 = Some s1" "ws s1 = Some h"
    "p = JSON_stringify (make_controlData (fuse (keyState s1) pad))"
    by blast
  then show ?thesis
    by (intro exI [of _ tes1] exI [of _ f] exI [of _ pad] exI [of _ tes2] exI [of _ s1]
          exI [of _ "fuse (keyState s1) pad"])
       (simp only: JSON_stringify_make_controlData fixed3_toFixed3 simp_thms)
qed

theorem sent_records_are_control_json_witness:
  \<open>\<exists>s tes1 f pad tes2 s1 c.
     run init [(0, Mount), (10, SocketOpen 0), (80, KeyDown ''W''),
       (100, AnimationFrame 1
          (Some \<lparr>axes0 = 7 / 8, axes1 = 1 / 4, button0 = True, button1 = False\<rparr>)),
       (120, KeyUp ''W''), (130, KeyDown ''d''),
       (160, AnimationFrame 2
          (Some \<lparr>axes0 = round_double (- 5 / 10000), axes1 = 1 / 8, button0 = False,
                 button1 = True\<rparr>))] = Some s \<and>
     sent s =
       [(0, 160,
         ''{"type":"control","left_x":"1.000","left_y":"0.125","cross_b":false,"circle_b":true}''),
        (0, 100,
         ''{"type":"control","left_x":"0.875","left_y":"-0.750","cross_b":true,"circle_b":false}'')] \<and>
     [(0, Mount), (10, SocketOpen 0), (80, KeyDown ''W''),
       (100, AnimationFrame 1
          (Some \<lparr>axes0 = 7 / 8, axes1 = 1 / 4, button0 = True, button1 = False\<rparr>)),
       (120, KeyUp ''W''), (130, KeyDown ''d''),
       (160, AnimationFrame 2
          (Some \<lparr>axes0 = round_double (- 5 / 10000), axes1 = 1 / 8, button0 = False,
                 button1 = True\<rparr>))] = tes1 @ (100, AnimationFrame f pad) # tes2 \<and>
     run init tes1 = Some s1 \<and> ws s1 = Some 0 \<and> c = fuse (keyState s1) pad \<and>
     ''{"type":"control","left_x":"0.875","left_y":"-0.750","cross_b":true,"circle_b":false}'' =
       ''{"type":"control","left_x":"'' @ toFixed3 (lx c) @
       ''","left_y":"'' @ toFixed3 (ly c) @
       ''","cross_b":'' @ (if cross c then ''true'' else ''false'') @
       '',"circle_b":'' @ (if circle c then ''true'' else ''false'') @ ''}'' \<and>
     fixed3 (lx c) (toFixed3 (lx c)) \<and> fixed3 (ly c) (toFixed3 (ly c))\<close>
proof -
  let ?tes = "[(0, Mount), (10, SocketOpen 0), (80, KeyDown ''W''),
       (100, AnimationFrame 1
          (Some \<lparr>axes0 = 7 / 8, axes1 = 1 / 4, button0 = True, button1 = False\<rparr>)),
       (120, KeyUp ''W''), (130, KeyDown ''d''),
       (160, AnimationFrame 2
          (Some \<lparr>axes0 = round_double (- 5 / 10000), axes1 = 1 / 8, button0 = False,
                 button1 = True\<rparr>))]"
  let ?m1 = \<open>(0 :: nat, 100 :: real,
      ''{"type":"control","left_x":"0.875","left_y":"-0.750","cross_b":true,"circle_b":false}'')\<close>
  let ?m2 = \<open>(0 :: nat, 160 :: real,
      ''{"type":"control","left_x":"1.000","left_y":"0.125","cross_b":false,"circle_b":true}'')\<close>
  have "run init ?tes \<noteq> None"
    by code_simp
  then obtain s where r: "run init ?tes = Some s"
    by blast
  have "map_option sent (run init ?tes) = Some [?m2, ?m1]"
    by code_simp
  with r have sent: "sent s = [?m2, ?m1]"
    by simp
  then have m: "?m1 \<in> set (sent s)"
    by simp
  from sent_records_are_control_json [OF r m] r sent show ?thesis
    by blast
qed

end
